theory Spec2Isabelle
  imports Main "HOL-Library.Word" "HOL-Library.Monad_Syntax"
begin

section \<open>The encoder bridge: capture session and frame normalisation\<close>

text \<open>
  A shallow embedding of \<^verbatim>\<open>camera_encoder_bridge.cpp\<close>. The C++ object is a record
  of its member fields; every member function takes the object and returns it updated.
  The camera and media libraries are outside the repository: what each library call
  returns is an input of the model (record \<open>ndk\<close>), and every library call that creates,
  wires or releases a resource is appended to a call log, so that "released", "constructed"
  and "before" are statements about that log. The mutex and the memory orders of the atomic
  flag are not modelled: each member function runs to completion.
\<close>

subsection \<open>Handles, statuses, library calls\<close>

text \<open>A pointer to a library object: \<open>None\<close> is \<^verbatim>\<open>nullptr\<close>.\<close>

type_synonym handle = "nat option"

text \<open>\<^verbatim>\<open>FrameDataCallback\<close>: a \<^verbatim>\<open>std::function\<close>, which may be empty (\<open>None\<close>).\<close>

type_synonym callback = nat

type_synonym byte = "8 word"

abbreviation (input) AMEDIA_OK :: int where "AMEDIA_OK \<equiv> 0"
abbreviation (input) ACAMERA_OK :: int where "ACAMERA_OK \<equiv> 0"

definition kImageFormat :: int where
  "kImageFormat = 35"

definition kMaxImages :: int where
  "kMaxImages = 4"

text \<open>One plane of an \<^verbatim>\<open>AImage\<close>: data pointer (the list is the \<open>dataLength\<close> bytes
  behind it), row stride and pixel stride, as the three plane accessors report them.\<close>

record plane =
  plane_data :: "byte list option"
  plane_rowStride :: int
  plane_pixelStride :: int

record aimage =
  img_width :: int
  img_height :: int
  img_timestamp :: int
  img_plane0 :: plane
  img_plane1 :: plane
  img_plane2 :: plane

text \<open>The library calls the bridge makes, with the handles passed and (for the calls
  with an out parameter) the handle stored. The last three are the per-frame actions:
  the \<^verbatim>\<open>std::vector\<close> allocation, the consumer callback and the release of the image.\<close>

datatype ndk_call =
    AImageReader_new int int int int handle
  | AImageReader_setImageListener handle
  | AImageReader_getWindow handle handle
  | ACameraManager_openCamera string handle
  | ACameraOutputTarget_create handle handle
  | ACameraDevice_createCaptureRequest handle handle
  | ACaptureRequest_addTarget handle handle
  | ACaptureSessionOutputContainer_create handle
  | ACaptureSessionOutput_create handle handle
  | ACaptureSessionOutputContainer_add handle handle
  | ACameraDevice_createCaptureSession handle handle handle
  | ACameraCaptureSession_setRepeatingRequest handle handle
  | ACameraCaptureSession_stopRepeating handle
  | ACameraCaptureSession_close handle
  | ACameraDevice_close handle
  | ACaptureRequest_free handle
  | ACameraOutputTarget_free handle
  | ACaptureSessionOutput_free handle
  | ACaptureSessionOutputContainer_free handle
  | AImageReader_delete handle
  | Vector_alloc int
  | FrameCallback callback "byte list" int int int int
  | AImage_delete aimage

text \<open>What the library answers during one \<^verbatim>\<open>startCapture\<close>: a status for each call
  and, for the calls with an out parameter, the pointer written through it.\<close>

record ndk =
  manager_isValid :: bool
  ret_AImageReader_new :: "int \<times> handle"
  ret_setImageListener :: int
  ret_getWindow :: "int \<times> handle"
  ret_openCamera :: "int \<times> handle"
  ret_OutputTarget_create :: "int \<times> handle"
  ret_createCaptureRequest :: "int \<times> handle"
  ret_addTarget :: int
  ret_OutputContainer_create :: "int \<times> handle"
  ret_SessionOutput_create :: "int \<times> handle"
  ret_OutputContainer_add :: int
  ret_createCaptureSession :: "int \<times> handle"
  ret_setRepeatingRequest :: int

subsection \<open>The object\<close>

text \<open>The member fields of \<^verbatim>\<open>CameraEncoderBridge\<close> (the three callback structs are
  kept as "has been filled in"), and the log of library calls made so far.\<close>

record bridge =
  capturing :: bool
  currentCameraId :: string
  cameraDevice :: handle
  captureSession :: handle
  outputContainer :: handle
  sessionOutput :: handle
  outputTarget :: handle
  captureRequest :: handle
  imageReader :: handle
  imageReaderWindow :: handle
  frameCallback :: "callback option"
  deviceCallbacks :: bool
  sessionCallbacks :: bool
  imageListener :: bool
  calls :: "ndk_call list"

definition new_bridge :: bridge where
  "new_bridge =
     \<lparr>capturing = False, currentCameraId = [], cameraDevice = None, captureSession = None,
      outputContainer = None, sessionOutput = None, outputTarget = None,
      captureRequest = None, imageReader = None, imageReaderWindow = None,
      frameCallback = None, deviceCallbacks = False, sessionCallbacks = False,
      imageListener = False, calls = []\<rparr>"

definition call :: "ndk_call \<Rightarrow> bridge \<Rightarrow> bridge" where
  "call c b = b\<lparr>calls := calls b @ [c]\<rparr>"

subsection \<open>cleanup\<close>

definition cleanup :: "bridge \<Rightarrow> bridge" where
  "cleanup b0 =
    (let b = b0\<lparr>capturing := False\<rparr>;
         b = (if captureSession b \<noteq> None
              then (call (ACameraCaptureSession_close (captureSession b))
                     (call (ACameraCaptureSession_stopRepeating (captureSession b)) b))
                   \<lparr>captureSession := None\<rparr>
              else b);
         b = (if cameraDevice b \<noteq> None
              then (call (ACameraDevice_close (cameraDevice b)) b)\<lparr>cameraDevice := None\<rparr>
              else b);
         b = (if captureRequest b \<noteq> None
              then (call (ACaptureRequest_free (captureRequest b)) b)\<lparr>captureRequest := None\<rparr>
              else b);
         b = (if outputTarget b \<noteq> None
              then (call (ACameraOutputTarget_free (outputTarget b)) b)\<lparr>outputTarget := None\<rparr>
              else b);
         b = (if sessionOutput b \<noteq> None
              then (call (ACaptureSessionOutput_free (sessionOutput b)) b)\<lparr>sessionOutput := None\<rparr>
              else b);
         b = (if outputContainer b \<noteq> None
              then (call (ACaptureSessionOutputContainer_free (outputContainer b)) b)
                   \<lparr>outputContainer := None\<rparr>
              else b);
         b = b\<lparr>imageReaderWindow := None\<rparr>;
         b = (if imageReader b \<noteq> None
              then (call (AImageReader_delete (imageReader b)) b)\<lparr>imageReader := None\<rparr>
              else b)
     in b\<lparr>currentCameraId := [], frameCallback := None\<rparr>)"

subsection \<open>startCapture\<close>

text \<open>The library calls of \<^verbatim>\<open>startCapture\<close>, in the order of the source. Each is
  followed there by a test and, when the test fails, by \<^verbatim>\<open>cleanup(); return false;\<close>.\<close>

datatype step =
    CreateImageReader
  | SetImageListener
  | GetReaderWindow
  | OpenDevice
  | CreateOutputTarget
  | CreateCaptureRequest
  | AddTargetToRequest
  | CreateOutputContainer
  | CreateSessionOutput
  | AddOutputToContainer
  | CreateCaptureSession
  | SetRepeatingRequest

text \<open>One call with its test: the out parameter is stored in the member field, the call
  is logged, and the result is \<open>Inl\<close> of the object when the source's test sends it to
  \<^verbatim>\<open>cleanup\<close>, \<open>Inr\<close> of the object when the source goes on to the next call.\<close>

fun perform :: "ndk \<Rightarrow> string \<Rightarrow> int \<Rightarrow> int \<Rightarrow> step \<Rightarrow> bridge \<Rightarrow> bridge + bridge" where
  "perform env cameraId width height CreateImageReader b0 =
     (let mediaStatus = fst (ret_AImageReader_new env);
          b = b0\<lparr>imageReader := snd (ret_AImageReader_new env)\<rparr>;
          b = call (AImageReader_new width height kImageFormat kMaxImages (imageReader b)) b
      in if mediaStatus \<noteq> AMEDIA_OK \<or> imageReader b = None then Inl b else Inr b)"
| "perform env cameraId width height SetImageListener b0 =
     (let b = b0\<lparr>imageListener := True\<rparr>;
          mediaStatus = ret_setImageListener env;
          b = call (AImageReader_setImageListener (imageReader b)) b
      in if mediaStatus \<noteq> AMEDIA_OK then Inl b else Inr b)"
| "perform env cameraId width height GetReaderWindow b0 =
     (let mediaStatus = fst (ret_getWindow env);
          b = b0\<lparr>imageReaderWindow := snd (ret_getWindow env)\<rparr>;
          b = call (AImageReader_getWindow (imageReader b) (imageReaderWindow b)) b
      in if mediaStatus \<noteq> AMEDIA_OK \<or> imageReaderWindow b = None then Inl b else Inr b)"
| "perform env cameraId width height OpenDevice b0 =
     (let b = b0\<lparr>deviceCallbacks := True\<rparr>;
          status = fst (ret_openCamera env);
          b = b\<lparr>cameraDevice := snd (ret_openCamera env)\<rparr>;
          b = call (ACameraManager_openCamera cameraId (cameraDevice b)) b
      in if status \<noteq> ACAMERA_OK \<or> cameraDevice b = None then Inl b else Inr b)"
| "perform env cameraId width height CreateOutputTarget b0 =
     (let status = fst (ret_OutputTarget_create env);
          b = b0\<lparr>outputTarget := snd (ret_OutputTarget_create env)\<rparr>;
          b = call (ACameraOutputTarget_create (imageReaderWindow b) (outputTarget b)) b
      in if status \<noteq> ACAMERA_OK then Inl b else Inr b)"
| "perform env cameraId width height CreateCaptureRequest b0 =
     (let status = fst (ret_createCaptureRequest env);
          b = b0\<lparr>captureRequest := snd (ret_createCaptureRequest env)\<rparr>;
          b = call (ACameraDevice_createCaptureRequest (cameraDevice b) (captureRequest b)) b
      in if status \<noteq> ACAMERA_OK then Inl b else Inr b)"
| "perform env cameraId width height AddTargetToRequest b0 =
     (let status = ret_addTarget env;
          b = call (ACaptureRequest_addTarget (captureRequest b0) (outputTarget b0)) b0
      in if status \<noteq> ACAMERA_OK then Inl b else Inr b)"
| "perform env cameraId width height CreateOutputContainer b0 =
     (let status = fst (ret_OutputContainer_create env);
          b = b0\<lparr>outputContainer := snd (ret_OutputContainer_create env)\<rparr>;
          b = call (ACaptureSessionOutputContainer_create (outputContainer b)) b
      in if status \<noteq> ACAMERA_OK then Inl b else Inr b)"
| "perform env cameraId width height CreateSessionOutput b0 =
     (let status = fst (ret_SessionOutput_create env);
          b = b0\<lparr>sessionOutput := snd (ret_SessionOutput_create env)\<rparr>;
          b = call (ACaptureSessionOutput_create (imageReaderWindow b) (sessionOutput b)) b
      in if status \<noteq> ACAMERA_OK then Inl b else Inr b)"
| "perform env cameraId width height AddOutputToContainer b0 =
     (let status = ret_OutputContainer_add env;
          b = call (ACaptureSessionOutputContainer_add (outputContainer b0) (sessionOutput b0)) b0
      in if status \<noteq> ACAMERA_OK then Inl b else Inr b)"
| "perform env cameraId width height CreateCaptureSession b0 =
     (let b = b0\<lparr>sessionCallbacks := True\<rparr>;
          status = fst (ret_createCaptureSession env);
          b = b\<lparr>captureSession := snd (ret_createCaptureSession env)\<rparr>;
          b = call (ACameraDevice_createCaptureSession (cameraDevice b) (outputContainer b)
                      (captureSession b)) b
      in if status \<noteq> ACAMERA_OK \<or> captureSession b = None then Inl b else Inr b)"
| "perform env cameraId width height SetRepeatingRequest b0 =
     (let status = ret_setRepeatingRequest env;
          b = call (ACameraCaptureSession_setRepeatingRequest (captureSession b0)
                      (captureRequest b0)) b0
      in if status \<noteq> ACAMERA_OK then Inl b else Inr b)"

definition construction_steps :: "step list" where
  "construction_steps =
     [CreateImageReader, SetImageListener, GetReaderWindow, OpenDevice, CreateOutputTarget,
      CreateCaptureRequest, AddTargetToRequest, CreateOutputContainer, CreateSessionOutput,
      AddOutputToContainer, CreateCaptureSession, SetRepeatingRequest]"

text \<open>The calls run in order; the first one whose test fails ends the sequence.\<close>

fun run_steps :: "ndk \<Rightarrow> string \<Rightarrow> int \<Rightarrow> int \<Rightarrow> step list \<Rightarrow> bridge \<Rightarrow> bridge + bridge" where
  "run_steps env cameraId width height [] b = Inr b"
| "run_steps env cameraId width height (s # ss) b =
     (case perform env cameraId width height s b of
        Inl bf \<Rightarrow> Inl bf
      | Inr b' \<Rightarrow> run_steps env cameraId width height ss b')"

definition startCapture ::
  "ndk \<Rightarrow> string \<Rightarrow> int \<Rightarrow> int \<Rightarrow> callback option \<Rightarrow> bridge \<Rightarrow> bool \<times> bridge" where
  "startCapture env cameraId width height cb b0 =
    (if capturing b0 \<and> currentCameraId b0 = cameraId then (True, b0)
     else
      let b = (if capturing b0 then cleanup b0 else b0) in
      if \<not> manager_isValid env then (False, b)
      else
       (case run_steps env cameraId width height construction_steps
               (b\<lparr>frameCallback := cb, currentCameraId := cameraId\<rparr>) of
          Inl bf \<Rightarrow> (False, cleanup bf)
        | Inr b' \<Rightarrow> (True, b'\<lparr>capturing := True\<rparr>)))"

subsection \<open>stopCapture, the destructor, the device notifications\<close>

definition stopCapture :: "bridge \<Rightarrow> bridge" where
  "stopCapture b = (if \<not> capturing b then b else cleanup b)"

definition destructor :: "bridge \<Rightarrow> bridge" where
  "destructor b = stopCapture b"

definition onDeviceDisconnected :: "bridge \<Rightarrow> bridge" where
  "onDeviceDisconnected self = self\<lparr>capturing := False\<rparr>"

definition onDeviceError :: "int \<Rightarrow> bridge \<Rightarrow> bridge" where
  "onDeviceError error self = self\<lparr>capturing := False\<rparr>"

subsection \<open>onImageAvailable\<close>

text \<open>
  The arithmetic of the handler is \<^verbatim>\<open>int32_t\<close> arithmetic. It is modelled on \<open>int\<close>; where
  the C++ has no defined result the model returns \<open>None\<close>: the buffer size leaves the
  32-bit range, the size is negative (the \<^verbatim>\<open>std::vector\<close> constructor throws), or a copy
  reads outside the \<open>dataLength\<close> bytes of a plane or writes outside the buffer.
\<close>

definition int32_ok :: "int \<Rightarrow> bool" where
  "int32_ok x \<longleftrightarrow> - (2 ^ 31) \<le> x \<and> x < 2 ^ 31"

text \<open>Division of C++: the quotient is truncated towards zero.\<close>

definition cdiv :: "int \<Rightarrow> int \<Rightarrow> int" where
  "cdiv a b = sgn a * sgn b * (\<bar>a\<bar> div \<bar>b\<bar>)"

text \<open>\<^verbatim>\<open>memcpy(dst + doff, src + soff, n)\<close>, \<^verbatim>\<open>src[i]\<close> and \<^verbatim>\<open>dst[i] = v\<close>.\<close>

definition memcpy :: "byte list \<Rightarrow> int \<Rightarrow> byte list \<Rightarrow> int \<Rightarrow> int \<Rightarrow> byte list option" where
  "memcpy dst doff src soff n =
     (if n < 0 \<or> soff < 0 \<or> int (length src) < soff + n \<or>
         doff < 0 \<or> int (length dst) < doff + n then None
      else Some (take (nat doff) dst @ take (nat n) (drop (nat soff) src) @
                 drop (nat (doff + n)) dst))"

definition load :: "byte list \<Rightarrow> int \<Rightarrow> byte option" where
  "load src i = (if 0 \<le> i \<and> i < int (length src) then Some (src ! nat i) else None)"

definition store :: "byte list \<Rightarrow> int \<Rightarrow> byte \<Rightarrow> byte list option" where
  "store dst i v = (if 0 \<le> i \<and> i < int (length dst) then Some (dst[nat i := v]) else None)"

text \<open>\<^verbatim>\<open>for (int32_t i = i0; i < n; ++i) body\<close>, the body acting on the buffer.\<close>

function for_loop :: "int \<Rightarrow> int \<Rightarrow> (int \<Rightarrow> 's \<Rightarrow> 's option) \<Rightarrow> 's \<Rightarrow> 's option" where
  "for_loop i n body s =
     (if i < n
      then (case body i s of None \<Rightarrow> None | Some s' \<Rightarrow> for_loop (i + 1) n body s')
      else Some s)"
  by pat_completeness auto
termination
  by (relation "measure (\<lambda>(i, n, body, s). nat (n - i))") auto

declare for_loop.simps [simp del]

text \<open>"Copy Y plane" (lines 292 to 301).\<close>

definition copy_Y_plane ::
  "int \<Rightarrow> int \<Rightarrow> int \<Rightarrow> byte list \<Rightarrow> byte list \<Rightarrow> byte list option" where
  "copy_Y_plane width height yRowStride yData i420Buffer =
     (if yRowStride = width then memcpy i420Buffer 0 yData 0 (width * height)
      else for_loop 0 height
             (\<lambda>row buf. memcpy buf (row * width) yData (row * yRowStride) width)
             i420Buffer)"

text \<open>"Copy U and V planes (deinterleave if needed)" (lines 303 to 330). Both planes are
  read with the one row stride and the one pixel stride the handler asked plane 1 for.\<close>

definition copy_UV_planes ::
  "int \<Rightarrow> int \<Rightarrow> int \<Rightarrow> int \<Rightarrow> byte list \<Rightarrow> byte list \<Rightarrow> byte list \<Rightarrow> byte list option" where
  "copy_UV_planes width height uvRowStride uvPixelStride uData vData i420Buffer =
     (let uvWidth = cdiv width 2;
          uvHeight = cdiv height 2;
          uDst = width * height;
          vDst = uDst + uvWidth * uvHeight
      in if uvPixelStride = 1 then
           (if uvRowStride = uvWidth then
              do {
                buf \<leftarrow> memcpy i420Buffer uDst uData 0 (uvWidth * uvHeight);
                memcpy buf vDst vData 0 (uvWidth * uvHeight)
              }
            else
              for_loop 0 uvHeight
                (\<lambda>row buf. do {
                   buf \<leftarrow> memcpy buf (uDst + row * uvWidth) uData (row * uvRowStride) uvWidth;
                   memcpy buf (vDst + row * uvWidth) vData (row * uvRowStride) uvWidth
                 })
                i420Buffer)
         else
           for_loop 0 uvHeight
             (\<lambda>row buf.
                for_loop 0 uvWidth
                  (\<lambda>col buf. do {
                     u \<leftarrow> load uData (row * uvRowStride + col * uvPixelStride);
                     buf \<leftarrow> store buf (uDst + row * uvWidth + col) u;
                     v \<leftarrow> load vData (row * uvRowStride + col * uvPixelStride);
                     store buf (vDst + row * uvWidth + col) v
                   })
                  buf)
             i420Buffer)"

text \<open>The body of \<^verbatim>\<open>if (yData && uData && vData)\<close> up to the callback: the size and the
  filled \<^verbatim>\<open>i420Buffer\<close>.\<close>

definition i420_buffer ::
  "aimage \<Rightarrow> byte list \<Rightarrow> byte list \<Rightarrow> byte list \<Rightarrow> (int \<times> byte list) option" where
  "i420_buffer img yData uData vData =
     (let width = img_width img;
          height = img_height img;
          yRowStride = plane_rowStride (img_plane0 img);
          uvRowStride = plane_rowStride (img_plane1 img);
          uvPixelStride = plane_pixelStride (img_plane1 img)
      in if \<not> int32_ok (width * height) \<or> \<not> int32_ok (width * height * 3) then None
         else
           let i420Size = cdiv (width * height * 3) 2
           in if i420Size < 0 then None
              else do {
                buf \<leftarrow> copy_Y_plane width height yRowStride yData
                         (replicate (nat i420Size) 0);
                buf \<leftarrow> copy_UV_planes width height uvRowStride uvPixelStride uData vData buf;
                Some (i420Size, buf)
              })"

text \<open>The handler. Its inputs are the object (\<^verbatim>\<open>context\<close>) and what
  \<^verbatim>\<open>AImageReader_acquireLatestImage\<close> returns: the status and the image pointer.\<close>

definition onImageAvailable :: "bridge \<Rightarrow> int \<Rightarrow> aimage option \<Rightarrow> bridge option" where
  "onImageAvailable self status acquired =
     (case acquired of
        None \<Rightarrow> Some self
      | Some img \<Rightarrow>
          if status \<noteq> AMEDIA_OK then Some self
          else
            (case frameCallback self of
               None \<Rightarrow> Some (call (AImage_delete img) self)
             | Some cb \<Rightarrow>
                 (case (plane_data (img_plane0 img), plane_data (img_plane1 img),
                        plane_data (img_plane2 img)) of
                    (Some yData, Some uData, Some vData) \<Rightarrow>
                      do {
                        (i420Size, buf) \<leftarrow> i420_buffer img yData uData vData;
                        Some (call (AImage_delete img)
                               (call (FrameCallback cb buf i420Size (img_width img)
                                        (img_height img) (img_timestamp img))
                                  (call (Vector_alloc i420Size) self)))
                      }
                  | _ \<Rightarrow> Some (call (AImage_delete img) self))))"

text \<open>The handler with the ways it is left. Two statements of the frame path can throw:
  the \<^verbatim>\<open>std::vector\<close> constructor (line 290; \<^verbatim>\<open>std::bad_alloc\<close>, or
  \<^verbatim>\<open>std::length_error\<close> for a negative size) and the call of the consumer callback
  (line 332). The handler has no \<^verbatim>\<open>try\<close> and no scope guard, so an exception leaves
  it at that statement. Whether either throws is an input (record \<open>frame_faults\<close>).
  \<open>Returned\<close> is a return of the handler, \<open>Thrown\<close> an exception leaving it, both with the
  object as it is then; \<open>Undefined\<close> is C++ without a defined result. With no fault,
  \<open>onImageAvailable\<close> above is the object of \<open>Returned\<close>.\<close>

datatype handler_exit = Returned bridge | Thrown bridge | Undefined

record frame_faults =
  vector_throws :: bool
  callback_throws :: bool

definition onImageAvailable_exit ::
  "frame_faults \<Rightarrow> bridge \<Rightarrow> int \<Rightarrow> aimage option \<Rightarrow> handler_exit" where
  "onImageAvailable_exit faults self status acquired =
     (case acquired of
        None \<Rightarrow> Returned self
      | Some img \<Rightarrow>
          if status \<noteq> AMEDIA_OK then Returned self
          else
            (case frameCallback self of
               None \<Rightarrow> Returned (call (AImage_delete img) self)
             | Some cb \<Rightarrow>
                 (case (plane_data (img_plane0 img), plane_data (img_plane1 img),
                        plane_data (img_plane2 img)) of
                    (Some yData, Some uData, Some vData) \<Rightarrow>
                      if \<not> int32_ok (img_width img * img_height img) \<or>
                         \<not> int32_ok (img_width img * img_height img * 3) then Undefined
                      else if cdiv (img_width img * img_height img * 3) 2 < 0 \<or>
                              vector_throws faults then Thrown self
                      else
                        (case i420_buffer img yData uData vData of
                           None \<Rightarrow> Undefined
                         | Some (i420Size, buf) \<Rightarrow>
                             let b = call (FrameCallback cb buf i420Size (img_width img)
                                             (img_height img) (img_timestamp img))
                                       (call (Vector_alloc i420Size) self)
                             in if callback_throws faults then Thrown b
                                else Returned (call (AImage_delete img) b))
                  | _ \<Rightarrow> Returned (call (AImage_delete img) self))))"

section \<open>Properties\<close>

subsection \<open>Vocabulary for the capture session\<close>

text \<open>The release calls \<^verbatim>\<open>cleanup\<close> makes for an object: one block per member field
  that is not null, in the order of the source.\<close>

definition cleanup_calls :: "bridge \<Rightarrow> ndk_call list" where
  "cleanup_calls b =
     (if captureSession b \<noteq> None
      then [ACameraCaptureSession_stopRepeating (captureSession b),
            ACameraCaptureSession_close (captureSession b)] else []) @
     (if cameraDevice b \<noteq> None then [ACameraDevice_close (cameraDevice b)] else []) @
     (if captureRequest b \<noteq> None then [ACaptureRequest_free (captureRequest b)] else []) @
     (if outputTarget b \<noteq> None then [ACameraOutputTarget_free (outputTarget b)] else []) @
     (if sessionOutput b \<noteq> None then [ACaptureSessionOutput_free (sessionOutput b)] else []) @
     (if outputContainer b \<noteq> None
      then [ACaptureSessionOutputContainer_free (outputContainer b)] else []) @
     (if imageReader b \<noteq> None then [AImageReader_delete (imageReader b)] else [])"

definition all_null :: "bridge \<Rightarrow> bool" where
  "all_null b \<longleftrightarrow>
     cameraDevice b = None \<and> captureSession b = None \<and> captureRequest b = None \<and>
     outputTarget b = None \<and> sessionOutput b = None \<and> outputContainer b = None \<and>
     imageReader b = None \<and> imageReaderWindow b = None"

definition all_populated :: "bridge \<Rightarrow> bool" where
  "all_populated b \<longleftrightarrow>
     cameraDevice b \<noteq> None \<and> captureSession b \<noteq> None \<and> captureRequest b \<noteq> None \<and>
     outputTarget b \<noteq> None \<and> sessionOutput b \<noteq> None \<and> outputContainer b \<noteq> None \<and>
     imageReader b \<noteq> None \<and> imageReaderWindow b \<noteq> None"

text \<open>What a library call leaves to be released: the release call for the handle it
  handed out. The reader window is owned by the reader and has no release call.\<close>

fun owed :: "ndk_call \<Rightarrow> ndk_call list" where
  "owed (AImageReader_new w h f m r) = (if r = None then [] else [AImageReader_delete r])"
| "owed (ACameraManager_openCamera c d) = (if d = None then [] else [ACameraDevice_close d])"
| "owed (ACameraOutputTarget_create w t) =
     (if t = None then [] else [ACameraOutputTarget_free t])"
| "owed (ACameraDevice_createCaptureRequest d r) =
     (if r = None then [] else [ACaptureRequest_free r])"
| "owed (ACaptureSessionOutputContainer_create c) =
     (if c = None then [] else [ACaptureSessionOutputContainer_free c])"
| "owed (ACaptureSessionOutput_create w out) =
     (if out = None then [] else [ACaptureSessionOutput_free out])"
| "owed (ACameraDevice_createCaptureSession d c s) =
     (if s = None then [] else [ACameraCaptureSession_close s])"
| "owed _ = []"

text \<open>In a log, every handle handed out is released later in the same log.\<close>

fun all_released :: "ndk_call list \<Rightarrow> bool" where
  "all_released [] = True"
| "all_released (c # cs) = (set (owed c) \<subseteq> set cs \<and> all_released cs)"

text \<open>A step fails when the library reports a status other than OK or, for the four
  calls whose out parameter the source also tests, hands back a null pointer.\<close>

fun step_fails :: "ndk \<Rightarrow> step \<Rightarrow> bool" where
  "step_fails env CreateImageReader =
     (fst (ret_AImageReader_new env) \<noteq> AMEDIA_OK \<or> snd (ret_AImageReader_new env) = None)"
| "step_fails env SetImageListener = (ret_setImageListener env \<noteq> AMEDIA_OK)"
| "step_fails env GetReaderWindow =
     (fst (ret_getWindow env) \<noteq> AMEDIA_OK \<or> snd (ret_getWindow env) = None)"
| "step_fails env OpenDevice =
     (fst (ret_openCamera env) \<noteq> ACAMERA_OK \<or> snd (ret_openCamera env) = None)"
| "step_fails env CreateOutputTarget = (fst (ret_OutputTarget_create env) \<noteq> ACAMERA_OK)"
| "step_fails env CreateCaptureRequest = (fst (ret_createCaptureRequest env) \<noteq> ACAMERA_OK)"
| "step_fails env AddTargetToRequest = (ret_addTarget env \<noteq> ACAMERA_OK)"
| "step_fails env CreateOutputContainer = (fst (ret_OutputContainer_create env) \<noteq> ACAMERA_OK)"
| "step_fails env CreateSessionOutput = (fst (ret_SessionOutput_create env) \<noteq> ACAMERA_OK)"
| "step_fails env AddOutputToContainer = (ret_OutputContainer_add env \<noteq> ACAMERA_OK)"
| "step_fails env CreateCaptureSession =
     (fst (ret_createCaptureSession env) \<noteq> ACAMERA_OK \<or> snd (ret_createCaptureSession env) = None)"
| "step_fails env SetRepeatingRequest = (ret_setRepeatingRequest env \<noteq> ACAMERA_OK)"

fun made_by :: "ndk_call \<Rightarrow> step option" where
  "made_by (AImageReader_new w h f m r) = Some CreateImageReader"
| "made_by (AImageReader_setImageListener r) = Some SetImageListener"
| "made_by (AImageReader_getWindow r w) = Some GetReaderWindow"
| "made_by (ACameraManager_openCamera c d) = Some OpenDevice"
| "made_by (ACameraOutputTarget_create w t) = Some CreateOutputTarget"
| "made_by (ACameraDevice_createCaptureRequest d r) = Some CreateCaptureRequest"
| "made_by (ACaptureRequest_addTarget r t) = Some AddTargetToRequest"
| "made_by (ACaptureSessionOutputContainer_create c) = Some CreateOutputContainer"
| "made_by (ACaptureSessionOutput_create w out) = Some CreateSessionOutput"
| "made_by (ACaptureSessionOutputContainer_add c out) = Some AddOutputToContainer"
| "made_by (ACameraDevice_createCaptureSession d c s) = Some CreateCaptureSession"
| "made_by (ACameraCaptureSession_setRepeatingRequest s r) = Some SetRepeatingRequest"
| "made_by _ = None"

text \<open>\<open>held b c\<close>: the handle that call \<open>c\<close> handed out is in its member field, so that
  \<^verbatim>\<open>cleanup\<close> releases it.\<close>

definition held :: "bridge \<Rightarrow> ndk_call \<Rightarrow> bool" where
  "held b c \<longleftrightarrow> set (owed c) \<subseteq> set (cleanup_calls b)"

definition tracked :: "step set \<Rightarrow> bridge \<Rightarrow> ndk_call list \<Rightarrow> bool" where
  "tracked D b cs \<longleftrightarrow> (\<forall>c \<in> set cs. held b c \<and> (\<exists>s \<in> D. made_by c = Some s))"

definition state_of :: "bridge + bridge \<Rightarrow> bridge" where
  "state_of r = (case r of Inl b \<Rightarrow> b | Inr b \<Rightarrow> b)"

text \<open>The library hands out a non-null pointer whenever it reports OK, for the four
  creation calls whose pointer the source does not test.\<close>

definition conforming :: "ndk \<Rightarrow> bool" where
  "conforming env \<longleftrightarrow>
     (fst (ret_OutputTarget_create env) = ACAMERA_OK \<longrightarrow> snd (ret_OutputTarget_create env) \<noteq> None) \<and>
     (fst (ret_createCaptureRequest env) = ACAMERA_OK \<longrightarrow> snd (ret_createCaptureRequest env) \<noteq> None) \<and>
     (fst (ret_OutputContainer_create env) = ACAMERA_OK \<longrightarrow> snd (ret_OutputContainer_create env) \<noteq> None) \<and>
     (fst (ret_SessionOutput_create env) = ACAMERA_OK \<longrightarrow> snd (ret_SessionOutput_create env) \<noteq> None)"

fun filled :: "step \<Rightarrow> bridge \<Rightarrow> bool" where
  "filled CreateImageReader b = (imageReader b \<noteq> None)"
| "filled GetReaderWindow b = (imageReaderWindow b \<noteq> None)"
| "filled OpenDevice b = (cameraDevice b \<noteq> None)"
| "filled CreateOutputTarget b = (outputTarget b \<noteq> None)"
| "filled CreateCaptureRequest b = (captureRequest b \<noteq> None)"
| "filled CreateOutputContainer b = (outputContainer b \<noteq> None)"
| "filled CreateSessionOutput b = (sessionOutput b \<noteq> None)"
| "filled CreateCaptureSession b = (captureSession b \<noteq> None)"
| "filled _ b = True"

text \<open>The operations that change an object, and the states reached by sequences of them.\<close>

datatype bridge_op =
    StartCapture ndk string int int "callback option"
  | StopCapture
  | Cleanup
  | DeviceDisconnected
  | DeviceError int

fun apply_op :: "bridge_op \<Rightarrow> bridge \<Rightarrow> bridge" where
  "apply_op (StartCapture env cameraId width height cb) b =
     snd (startCapture env cameraId width height cb b)"
| "apply_op StopCapture b = stopCapture b"
| "apply_op Cleanup b = cleanup b"
| "apply_op DeviceDisconnected b = onDeviceDisconnected b"
| "apply_op (DeviceError e) b = onDeviceError e b"

fun run_ops :: "bridge_op list \<Rightarrow> bridge \<Rightarrow> bridge" where
  "run_ops [] b = b"
| "run_ops (x # xs) b = run_ops xs (apply_op x b)"

fun op_conforming :: "bridge_op \<Rightarrow> bool" where
  "op_conforming (StartCapture env cameraId width height cb) = conforming env"
| "op_conforming _ = True"

text \<open>The invariant as the specification words it, and the invariant the code keeps.\<close>

definition spec_invariant :: "bridge \<Rightarrow> bool" where
  "spec_invariant b \<longleftrightarrow> (all_populated b \<and> capturing b) \<or> (all_null b \<and> \<not> capturing b)"

definition code_invariant :: "bridge \<Rightarrow> bool" where
  "code_invariant b \<longleftrightarrow> all_populated b \<or> (all_null b \<and> \<not> capturing b)"

text \<open>Concrete inputs: a library that succeeds throughout, one whose
  \<^verbatim>\<open>ACameraManager_openCamera\<close> fails, and the object after a successful start.\<close>

definition env_ok :: ndk where
  "env_ok = \<lparr>manager_isValid = True, ret_AImageReader_new = (0, Some 1),
     ret_setImageListener = 0, ret_getWindow = (0, Some 2), ret_openCamera = (0, Some 3),
     ret_OutputTarget_create = (0, Some 4), ret_createCaptureRequest = (0, Some 5),
     ret_addTarget = 0, ret_OutputContainer_create = (0, Some 6),
     ret_SessionOutput_create = (0, Some 7), ret_OutputContainer_add = 0,
     ret_createCaptureSession = (0, Some 8), ret_setRepeatingRequest = 0\<rparr>"

definition env_open_fails :: ndk where
  "env_open_fails = env_ok\<lparr>ret_openCamera := (- 10002, None)\<rparr>"

definition capturing_bridge :: bridge where
  "capturing_bridge =
     \<lparr>capturing = True, currentCameraId = ''0'', cameraDevice = Some 3, captureSession = Some 8,
      outputContainer = Some 6, sessionOutput = Some 7, outputTarget = Some 4,
      captureRequest = Some 5, imageReader = Some 1, imageReaderWindow = Some 2,
      frameCallback = Some 9, deviceCallbacks = True, sessionCallbacks = True,
      imageListener = True,
      calls = [AImageReader_new 640 480 35 4 (Some 1), AImageReader_setImageListener (Some 1),
        AImageReader_getWindow (Some 1) (Some 2), ACameraManager_openCamera ''0'' (Some 3),
        ACameraOutputTarget_create (Some 2) (Some 4),
        ACameraDevice_createCaptureRequest (Some 3) (Some 5),
        ACaptureRequest_addTarget (Some 5) (Some 4),
        ACaptureSessionOutputContainer_create (Some 6),
        ACaptureSessionOutput_create (Some 2) (Some 7),
        ACaptureSessionOutputContainer_add (Some 6) (Some 7),
        ACameraDevice_createCaptureSession (Some 3) (Some 6) (Some 8),
        ACameraCaptureSession_setRepeatingRequest (Some 8) (Some 5)]\<rparr>"

subsection \<open>Vocabulary for the frames\<close>

text \<open>A plane is large enough to be read with the given strides over \<open>w\<close> columns and
  \<open>h\<close> rows: the last byte read lies inside its \<open>dataLength\<close> bytes.\<close>

definition plane_fits :: "int \<Rightarrow> int \<Rightarrow> int \<Rightarrow> int \<Rightarrow> byte list \<Rightarrow> bool" where
  "plane_fits w h rowStride pixelStride d \<longleftrightarrow>
     0 \<le> rowStride \<and> 0 \<le> pixelStride \<and>
     (h - 1) * rowStride + (w - 1) * pixelStride < int (length d)"

text \<open>An image as the camera delivers it: positive dimensions, a buffer size inside the
  32-bit range, three planes present, each large enough for the strides the handler reads it
  with (the Y plane with its own row stride, both chroma planes with the strides of
  plane 1).\<close>

definition well_formed :: "aimage \<Rightarrow> bool" where
  "well_formed img \<longleftrightarrow>
     0 < img_width img \<and> 0 < img_height img \<and>
     img_width img * img_height img * 3 < 2 ^ 31 \<and>
     (case (plane_data (img_plane0 img), plane_data (img_plane1 img),
            plane_data (img_plane2 img)) of
        (Some yData, Some uData, Some vData) \<Rightarrow>
          plane_fits (img_width img) (img_height img)
            (plane_rowStride (img_plane0 img)) 1 yData \<and>
          plane_fits (img_width img div 2) (img_height img div 2)
            (plane_rowStride (img_plane1 img)) (plane_pixelStride (img_plane1 img)) uData \<and>
          plane_fits (img_width img div 2) (img_height img div 2)
            (plane_rowStride (img_plane1 img)) (plane_pixelStride (img_plane1 img)) vData
      | _ \<Rightarrow> False)"

text \<open>The \<open>w\<close> by \<open>h\<close> bytes of \<open>buf\<close> from offset \<open>base\<close> on are the plane \<open>src\<close> tightly
  packed: byte \<open>row * w + col\<close> is the source byte at \<open>row * rowStride + col * pixelStride\<close>.\<close>

definition packed_in ::
  "byte list \<Rightarrow> int \<Rightarrow> int \<Rightarrow> int \<Rightarrow> byte list \<Rightarrow> int \<Rightarrow> int \<Rightarrow> bool" where
  "packed_in buf base w h src rowStride pixelStride \<longleftrightarrow>
     (\<forall>row \<in> {0..<h}. \<forall>col \<in> {0..<w}.
        buf ! nat (base + row * w + col) = src ! nat (row * rowStride + col * pixelStride))"

text \<open>The effect of one iteration of a chroma row loop on the buffer: row \<open>j\<close> of both
  destination planes is written, every other byte is as before.\<close>

definition chroma_row_done ::
  "int \<Rightarrow> int \<Rightarrow> int \<Rightarrow> byte list \<Rightarrow> byte list \<Rightarrow> int \<Rightarrow> int \<Rightarrow> int \<Rightarrow>
   byte list \<Rightarrow> byte list \<Rightarrow> bool" where
  "chroma_row_done cw uDst vDst u v rs ps j t t' \<longleftrightarrow>
     length t' = length t \<and>
     (\<forall>c. 0 \<le> c \<and> c < cw \<longrightarrow>
        t' ! nat (uDst + j * cw + c) = u ! nat (j * rs + c * ps) \<and>
        t' ! nat (vDst + j * cw + c) = v ! nat (j * rs + c * ps)) \<and>
     (\<forall>k. 0 \<le> k \<and> k < int (length t) \<and>
          \<not> (uDst + j * cw \<le> k \<and> k < uDst + j * cw + cw) \<and>
          \<not> (vDst + j * cw \<le> k \<and> k < vDst + j * cw + cw) \<longrightarrow>
        t' ! nat k = t ! nat k)"

fun is_image_delete :: "ndk_call \<Rightarrow> bool" where
  "is_image_delete (AImage_delete i) = True"
| "is_image_delete _ = False"

text \<open>Planes 1 and 2 report the same row stride and the same pixel stride, as the
  format the reader is created with (\<open>kImageFormat\<close>, \<^verbatim>\<open>AIMAGE_FORMAT_YUV_420_888\<close>)
  guarantees for its U and V planes.\<close>

definition chroma_strides_agree :: "aimage \<Rightarrow> bool" where
  "chroma_strides_agree img \<longleftrightarrow>
     plane_rowStride (img_plane2 img) = plane_rowStride (img_plane1 img) \<and>
     plane_pixelStride (img_plane2 img) = plane_pixelStride (img_plane1 img)"

text \<open>Concrete inputs: a 4 by 4 frame whose luma rows are padded to a stride of 8 and hold
  the row index, with planar chroma; a 4 by 4 frame with interleaved chroma (pixel stride 2);
  a consumer callback that throws; a buffer allocation that throws.\<close>

definition luma_4x4 :: "byte list" where
  "luma_4x4 = [0, 0, 0, 0, 255, 255, 255, 255, 1, 1, 1, 1, 255, 255, 255, 255,
               2, 2, 2, 2, 255, 255, 255, 255, 3, 3, 3, 3, 255, 255, 255, 255]"

definition image_4x4 :: aimage where
  "image_4x4 =
     \<lparr>img_width = 4, img_height = 4, img_timestamp = 1000000,
      img_plane0 = \<lparr>plane_data = Some luma_4x4, plane_rowStride = 8, plane_pixelStride = 1\<rparr>,
      img_plane1 = \<lparr>plane_data = Some [10, 10, 10, 10], plane_rowStride = 2,
                    plane_pixelStride = 1\<rparr>,
      img_plane2 = \<lparr>plane_data = Some [20, 20, 20, 20], plane_rowStride = 2,
                    plane_pixelStride = 1\<rparr>\<rparr>"

definition buffer_4x4 :: "byte list" where
  "buffer_4x4 = [0, 0, 0, 0, 1, 1, 1, 1, 2, 2, 2, 2, 3, 3, 3, 3,
                 10, 10, 10, 10, 20, 20, 20, 20]"

definition luma_tight :: "byte list" where
  "luma_tight = [0, 1, 2, 3, 4, 5, 6, 7, 8, 9, 10, 11, 12, 13, 14, 15]"

definition image_interleaved :: aimage where
  "image_interleaved =
     \<lparr>img_width = 4, img_height = 4, img_timestamp = 2000000,
      img_plane0 = \<lparr>plane_data = Some luma_tight, plane_rowStride = 4, plane_pixelStride = 1\<rparr>,
      img_plane1 = \<lparr>plane_data = Some [100, 200, 101, 201, 102, 202, 103],
                    plane_rowStride = 4, plane_pixelStride = 2\<rparr>,
      img_plane2 = \<lparr>plane_data = Some [200, 101, 201, 102, 202, 103, 203],
                    plane_rowStride = 4, plane_pixelStride = 2\<rparr>\<rparr>"

definition buffer_interleaved :: "byte list" where
  "buffer_interleaved = luma_tight @ [100, 101, 102, 103] @ [200, 201, 202, 203]"



section \<open>The capture session\<close>

subsection \<open>cleanup as one update\<close>

lemma release_eq:
  "(if captureSession b \<noteq> None
    then (call (ACameraCaptureSession_close (captureSession b))
            (call (ACameraCaptureSession_stopRepeating (captureSession b)) b))
         \<lparr>captureSession := None\<rparr>
    else b) =
   b\<lparr>captureSession := None, calls := calls b @
       (if captureSession b \<noteq> None
        then [ACameraCaptureSession_stopRepeating (captureSession b),
              ACameraCaptureSession_close (captureSession b)] else [])\<rparr>"
  "(if cameraDevice b \<noteq> None
    then (call (ACameraDevice_close (cameraDevice b)) b)\<lparr>cameraDevice := None\<rparr> else b) =
   b\<lparr>cameraDevice := None, calls := calls b @
       (if cameraDevice b \<noteq> None then [ACameraDevice_close (cameraDevice b)] else [])\<rparr>"
  "(if captureRequest b \<noteq> None
    then (call (ACaptureRequest_free (captureRequest b)) b)\<lparr>captureRequest := None\<rparr> else b) =
   b\<lparr>captureRequest := None, calls := calls b @
       (if captureRequest b \<noteq> None then [ACaptureRequest_free (captureRequest b)] else [])\<rparr>"
  "(if outputTarget b \<noteq> None
    then (call (ACameraOutputTarget_free (outputTarget b)) b)\<lparr>outputTarget := None\<rparr> else b) =
   b\<lparr>outputTarget := None, calls := calls b @
       (if outputTarget b \<noteq> None then [ACameraOutputTarget_free (outputTarget b)] else [])\<rparr>"
  "(if sessionOutput b \<noteq> None
    then (call (ACaptureSessionOutput_free (sessionOutput b)) b)\<lparr>sessionOutput := None\<rparr> else b) =
   b\<lparr>sessionOutput := None, calls := calls b @
       (if sessionOutput b \<noteq> None then [ACaptureSessionOutput_free (sessionOutput b)] else [])\<rparr>"
  "(if outputContainer b \<noteq> None
    then (call (ACaptureSessionOutputContainer_free (outputContainer b)) b)
         \<lparr>outputContainer := None\<rparr> else b) =
   b\<lparr>outputContainer := None, calls := calls b @
       (if outputContainer b \<noteq> None
        then [ACaptureSessionOutputContainer_free (outputContainer b)] else [])\<rparr>"
  "(if imageReader b \<noteq> None
    then (call (AImageReader_delete (imageReader b)) b)\<lparr>imageReader := None\<rparr> else b) =
   b\<lparr>imageReader := None, calls := calls b @
       (if imageReader b \<noteq> None then [AImageReader_delete (imageReader b)] else [])\<rparr>"
  by (simp_all add: call_def)

lemma cleanup_eq:
  "cleanup b = b\<lparr>capturing := False, captureSession := None, cameraDevice := None,
      captureRequest := None, outputTarget := None, sessionOutput := None,
      outputContainer := None, imageReaderWindow := None, imageReader := None,
      currentCameraId := [], frameCallback := None, calls := calls b @ cleanup_calls b\<rparr>"
  unfolding cleanup_def Let_def
  apply (simp only: release_eq)
  apply (simp add: cleanup_calls_def split del: if_split cong: if_cong)
  done

lemma cleanup_fields [simp]:
  "capturing (cleanup b) = False" "currentCameraId (cleanup b) = []"
  "frameCallback (cleanup b) = None" "all_null (cleanup b)"
  "calls (cleanup b) = calls b @ cleanup_calls b"
  by (simp_all add: cleanup_eq all_null_def)

lemma cleanup_calls_null: "all_null b \<Longrightarrow> cleanup_calls b = []"
  by (simp add: all_null_def cleanup_calls_def)

lemma mem_if_list: "x \<in> set (if c then xs else []) \<longleftrightarrow> c \<and> x \<in> set xs"
  by simp

lemma mem_cleanup_calls:
  "x \<in> set (cleanup_calls b) \<longleftrightarrow>
     (captureSession b \<noteq> None \<and> (x = ACameraCaptureSession_stopRepeating (captureSession b)
        \<or> x = ACameraCaptureSession_close (captureSession b))) \<or>
     (cameraDevice b \<noteq> None \<and> x = ACameraDevice_close (cameraDevice b)) \<or>
     (captureRequest b \<noteq> None \<and> x = ACaptureRequest_free (captureRequest b)) \<or>
     (outputTarget b \<noteq> None \<and> x = ACameraOutputTarget_free (outputTarget b)) \<or>
     (sessionOutput b \<noteq> None \<and> x = ACaptureSessionOutput_free (sessionOutput b)) \<or>
     (outputContainer b \<noteq> None \<and> x = ACaptureSessionOutputContainer_free (outputContainer b)) \<or>
     (imageReader b \<noteq> None \<and> x = AImageReader_delete (imageReader b))"
  unfolding cleanup_calls_def set_append Un_iff mem_if_list by simp

lemma owed_cleanup_calls: "x \<in> set (cleanup_calls b) \<Longrightarrow> owed x = []"
  by (auto simp: mem_cleanup_calls)

lemma made_by_cleanup_calls: "x \<in> set (cleanup_calls b) \<Longrightarrow> made_by x = None"
  by (auto simp: mem_cleanup_calls)

lemma cleanup_calls_irrelevant [simp]:
  "cleanup_calls (b\<lparr>calls := cs\<rparr>) = cleanup_calls b"
  "cleanup_calls (b\<lparr>imageListener := x\<rparr>) = cleanup_calls b"
  "cleanup_calls (b\<lparr>deviceCallbacks := x\<rparr>) = cleanup_calls b"
  "cleanup_calls (b\<lparr>sessionCallbacks := x\<rparr>) = cleanup_calls b"
  "cleanup_calls (b\<lparr>imageReaderWindow := y\<rparr>) = cleanup_calls b"
  "cleanup_calls (b\<lparr>frameCallback := z\<rparr>) = cleanup_calls b"
  "cleanup_calls (b\<lparr>currentCameraId := u\<rparr>) = cleanup_calls b"
  "cleanup_calls (b\<lparr>capturing := v\<rparr>) = cleanup_calls b"
  by (simp_all add: cleanup_calls_def)

subsection \<open>Logs in which everything is released\<close>

lemma all_released_free: "\<forall>x \<in> set xs. owed x = [] \<Longrightarrow> all_released (xs @ ys) = all_released ys"
  by (induction xs) auto

lemma all_released_held:
  "\<forall>x \<in> set xs. set (owed x) \<subseteq> set ys \<Longrightarrow> all_released ys \<Longrightarrow> all_released (xs @ ys)"
  by (induction xs) auto

lemma all_released_cleanup_calls: "all_released (cleanup_calls b)"
  using all_released_free [of "cleanup_calls b" "[]"] by (simp add: owed_cleanup_calls)

subsection \<open>The construction sequence\<close>

lemma held_update:
  "held b c \<Longrightarrow> made_by c \<noteq> Some CreateImageReader \<Longrightarrow> held (b\<lparr>imageReader := h\<rparr>) c"
  "held b c \<Longrightarrow> made_by c \<noteq> Some OpenDevice \<Longrightarrow> held (b\<lparr>cameraDevice := h\<rparr>) c"
  "held b c \<Longrightarrow> made_by c \<noteq> Some CreateOutputTarget \<Longrightarrow> held (b\<lparr>outputTarget := h\<rparr>) c"
  "held b c \<Longrightarrow> made_by c \<noteq> Some CreateCaptureRequest \<Longrightarrow> held (b\<lparr>captureRequest := h\<rparr>) c"
  "held b c \<Longrightarrow> made_by c \<noteq> Some CreateOutputContainer \<Longrightarrow> held (b\<lparr>outputContainer := h\<rparr>) c"
  "held b c \<Longrightarrow> made_by c \<noteq> Some CreateSessionOutput \<Longrightarrow> held (b\<lparr>sessionOutput := h\<rparr>) c"
  "held b c \<Longrightarrow> made_by c \<noteq> Some CreateCaptureSession \<Longrightarrow> held (b\<lparr>captureSession := h\<rparr>) c"
  by (cases c; simp add: held_def mem_cleanup_calls split: if_splits)+

lemma held_new:
  "held (b\<lparr>imageReader := h\<rparr>) (AImageReader_new w ht f m h)"
  "held (b\<lparr>cameraDevice := h\<rparr>) (ACameraManager_openCamera cam h)"
  "held (b\<lparr>outputTarget := h\<rparr>) (ACameraOutputTarget_create win h)"
  "held (b\<lparr>captureRequest := h\<rparr>) (ACameraDevice_createCaptureRequest d h)"
  "held (b\<lparr>outputContainer := h\<rparr>) (ACaptureSessionOutputContainer_create h)"
  "held (b\<lparr>sessionOutput := h\<rparr>) (ACaptureSessionOutput_create win h)"
  "held (b\<lparr>captureSession := h\<rparr>) (ACameraDevice_createCaptureSession d c h)"
  "held b (AImageReader_setImageListener r)"
  "held b (AImageReader_getWindow r win)"
  "held b (ACaptureRequest_addTarget r t)"
  "held b (ACaptureSessionOutputContainer_add c out)"
  "held b (ACameraCaptureSession_setRepeatingRequest s r)"
  by (simp_all add: held_def mem_cleanup_calls)

lemma held_irrelevant [simp]:
  "held (b\<lparr>calls := cs\<rparr>) c = held b c"
  "held (b\<lparr>imageListener := x\<rparr>) c = held b c"
  "held (b\<lparr>deviceCallbacks := x\<rparr>) c = held b c"
  "held (b\<lparr>sessionCallbacks := x\<rparr>) c = held b c"
  "held (b\<lparr>imageReaderWindow := y\<rparr>) c = held b c"
  by (simp_all add: held_def)

lemma state_of_if [simp]: "state_of (if c then Inl x else Inr x) = x"
  by (simp add: state_of_def)

lemma tracked_step:
  assumes "tracked D b cs" "s \<notin> D"
    and "\<And>c0. held b c0 \<Longrightarrow> made_by c0 \<noteq> Some s \<Longrightarrow> held b' c0"
    and "held b' c" "made_by c = Some s"
  shows "tracked (insert s D) b' (cs @ [c])"
  using assms unfolding tracked_def by fastforce

lemma perform_tracked:
  assumes "tracked D b cs" "s \<notin> D"
  shows "\<exists>c. calls (state_of (perform env cam w h s b)) = calls b @ [c] \<and>
             tracked (insert s D) (state_of (perform env cam w h s b)) (cs @ [c])"
  using assms
  by (cases s; simp add: Let_def call_def)
     (rule tracked_step [where b = b]; (assumption | simp add: held_new held_update))+

lemma run_steps_tracked:
  "tracked D b cs \<Longrightarrow> distinct ss \<Longrightarrow> set ss \<inter> D = {} \<Longrightarrow>
   \<exists>cs' D'. calls (state_of (run_steps env cam w h ss b)) = calls b @ cs' \<and>
      tracked D' (state_of (run_steps env cam w h ss b)) (cs @ cs')"
proof (induction ss arbitrary: D b cs)
  case Nil
  then show ?case by (auto simp: state_of_def)
next
  case (Cons s ss)
  from Cons.prems have s: "s \<notin> D" by auto
  from perform_tracked [OF Cons.prems(1) s, of env cam w h]
  obtain c where c: "calls (state_of (perform env cam w h s b)) = calls b @ [c]"
    "tracked (insert s D) (state_of (perform env cam w h s b)) (cs @ [c])" by blast
  show ?case
  proof (cases "perform env cam w h s b")
    case (Inl bf)
    with c show ?thesis by (auto simp: state_of_def)
  next
    case (Inr b')
    with c have t: "tracked (insert s D) b' (cs @ [c])" and cb: "calls b' = calls b @ [c]"
      by (simp_all add: state_of_def)
    from Cons.prems have "distinct ss" "set ss \<inter> insert s D = {}" by auto
    from Cons.IH [OF t this, of ] obtain cs' D' where
      "calls (state_of (run_steps env cam w h ss b')) = calls b' @ cs'"
      "tracked D' (state_of (run_steps env cam w h ss b')) ((cs @ [c]) @ cs')" by blast
    with Inr cb show ?thesis by (auto intro!: exI [of _ "c # cs'"])
  qed
qed

lemma step_fails_perform:
  "step_fails env k \<Longrightarrow> \<exists>bf. perform env cam w h k b = Inl bf"
  by (cases k) (auto simp: Let_def call_def)

lemma step_fails_run_steps:
  "k \<in> set ss \<Longrightarrow> step_fails env k \<Longrightarrow> \<exists>bf. run_steps env cam w h ss b = Inl bf"
proof (induction ss arbitrary: b)
  case Nil
  then show ?case by simp
next
  case (Cons s ss)
  show ?case
  proof (cases "perform env cam w h s b")
    case (Inl bf)
    then show ?thesis by simp
  next
    case (Inr b')
    with step_fails_perform [OF Cons.prems(2), of cam w h b] Cons.prems(1)
    have "k \<in> set ss" by auto
    from Cons.IH [OF this Cons.prems(2)] Inr show ?thesis by simp
  qed
qed

lemma in_construction_steps: "k \<in> set construction_steps"
  by (cases k) (simp_all add: construction_steps_def)

lemma distinct_construction_steps: "distinct construction_steps"
  by (simp add: construction_steps_def)

lemma run_steps_log:
  obtains cs where "calls (state_of (run_steps env cam w h construction_steps b)) = calls b @ cs"
    and "\<forall>c \<in> set cs. held (state_of (run_steps env cam w h construction_steps b)) c"
proof -
  have "tracked {} b []" by (simp add: tracked_def)
  from run_steps_tracked [OF this distinct_construction_steps, of env cam w h]
  obtain cs' D' where "calls (state_of (run_steps env cam w h construction_steps b)) = calls b @ cs'"
    "tracked D' (state_of (run_steps env cam w h construction_steps b)) ([] @ cs')" by auto
  then show thesis using that by (auto simp: tracked_def)
qed

lemma startCapture_failed_released:
  assumes "run_steps env cam w h construction_steps b = Inl bf"
  shows "\<exists>cs. calls (cleanup bf) = calls b @ cs \<and> all_released cs"
proof -
  obtain cs where cs: "calls bf = calls b @ cs" "\<forall>c \<in> set cs. held bf c"
    using run_steps_log [of env cam w h b] assms by (auto simp: state_of_def)
  have "all_released (cs @ cleanup_calls bf)"
    using cs(2) by (intro all_released_held) (auto simp: held_def all_released_cleanup_calls)
  with cs(1) show ?thesis by simp
qed

lemma startCapture_log:
  "\<exists>cs. calls (snd (startCapture env cam w h cb b)) = calls b @ cs"
proof -
  define b1 where "b1 = (if capturing b then cleanup b else b)\<lparr>frameCallback := cb, currentCameraId := cam\<rparr>"
  obtain cs where cs: "calls (state_of (run_steps env cam w h construction_steps b1)) = calls b1 @ cs"
    using run_steps_log [of env cam w h b1] by blast
  have b1: "calls b1 = calls b @ (if capturing b then cleanup_calls b else [])"
    by (simp add: b1_def)
  show ?thesis
    using cs b1 unfolding startCapture_def Let_def b1_def [symmetric]
    by (cases "run_steps env cam w h construction_steps b1") (auto simp: state_of_def b1_def)
qed

lemma start_ok: "startCapture env_ok ''0'' 640 480 (Some 9) new_bridge = (True, capturing_bridge)"
  by (simp add: startCapture_def env_ok_def new_bridge_def construction_steps_def Let_def
      call_def kImageFormat_def kMaxImages_def capturing_bridge_def)

subsection \<open>Rollback of a failed start\<close>

text \<open>
  C1. When \<^verbatim>\<open>startCapture\<close> gets as far as the construction sequence (it is not the
  restart of the active camera, and the camera manager is valid) and any of the twelve
  library calls fails, it returns false; in the object it leaves, every pipeline handle is
  null, the capturing flag is clear, the camera identifier is empty and the frame callback
  is dropped; and in the calls it made, every handle the library handed out is released.
\<close>

theorem startCapture_rollback:
  assumes "\<not> (capturing b \<and> currentCameraId b = cameraId)" and "manager_isValid env"
    and "step_fails env k"
  shows "fst (startCapture env cameraId width height cb b) = False \<and>
         all_null (snd (startCapture env cameraId width height cb b)) \<and>
         \<not> capturing (snd (startCapture env cameraId width height cb b)) \<and>
         currentCameraId (snd (startCapture env cameraId width height cb b)) = [] \<and>
         frameCallback (snd (startCapture env cameraId width height cb b)) = None \<and>
         all_released (drop (length (calls b)) (calls (snd (startCapture env cameraId width height cb b))))"
proof -
  define b1 where "b1 = (if capturing b then cleanup b else b)\<lparr>frameCallback := cb, currentCameraId := cameraId\<rparr>"
  obtain bf where bf: "run_steps env cameraId width height construction_steps b1 = Inl bf"
    using step_fails_run_steps [OF in_construction_steps assms(3)] by blast
  have res: "startCapture env cameraId width height cb b = (False, cleanup bf)"
    using assms(1,2) bf by (simp add: startCapture_def b1_def Let_def)
  obtain cs where cs: "calls (cleanup bf) = calls b1 @ cs" "all_released cs"
    using startCapture_failed_released [OF bf] by blast
  have b1: "calls b1 = calls b @ (if capturing b then cleanup_calls b else [])"
    by (simp add: b1_def)
  have "all_released ((if capturing b then cleanup_calls b else []) @ cs)"
    using cs(2) by (subst all_released_free) (auto simp: owed_cleanup_calls)
  then show ?thesis using cs(1) b1 by (simp add: res)
qed

theorem startCapture_rollback_witness:
  "\<not> (capturing new_bridge \<and> currentCameraId new_bridge = ''0'') \<and>
   manager_isValid env_open_fails \<and> step_fails env_open_fails OpenDevice \<and>
   fst (startCapture env_open_fails ''0'' 640 480 (Some 9) new_bridge) = False \<and>
   all_null (snd (startCapture env_open_fails ''0'' 640 480 (Some 9) new_bridge)) \<and>
   calls (snd (startCapture env_open_fails ''0'' 640 480 (Some 9) new_bridge)) =
     [AImageReader_new 640 480 35 4 (Some 1), AImageReader_setImageListener (Some 1),
      AImageReader_getWindow (Some 1) (Some 2), ACameraManager_openCamera ''0'' None,
      AImageReader_delete (Some 1)]"
  using startCapture_rollback [of new_bridge "''0''" env_open_fails OpenDevice 640 480 "Some 9"]
  by (simp add: startCapture_def env_ok_def env_open_fails_def new_bridge_def
      construction_steps_def Let_def call_def kImageFormat_def kMaxImages_def cleanup_eq
      cleanup_calls_def all_null_def)

subsection \<open>Stopping\<close>

text \<open>
  C7. \<^verbatim>\<open>stopCapture\<close> on an object that is not capturing returns it unchanged; stopping
  twice is stopping once; and a second \<^verbatim>\<open>cleanup\<close> changes nothing, so it makes no
  library call: nothing is released a second time.
\<close>

theorem stopCapture_idempotent:
  "(\<not> capturing b \<longrightarrow> stopCapture b = b) \<and>
   stopCapture (stopCapture b) = stopCapture b \<and>
   cleanup (cleanup b) = cleanup b \<and>
   calls (cleanup (cleanup b)) = calls (cleanup b)"
proof -
  have "cleanup_calls (cleanup b) = []" by (rule cleanup_calls_null) simp
  then have "cleanup (cleanup b) = cleanup b"
    by (subst (1) cleanup_eq) (simp add: cleanup_eq)
  then show ?thesis by (simp add: stopCapture_def)
qed

theorem stopCapture_idempotent_witness:
  "\<not> capturing new_bridge \<and> stopCapture new_bridge = new_bridge \<and>
   stopCapture (stopCapture capturing_bridge) = stopCapture capturing_bridge \<and>
   calls (stopCapture (stopCapture capturing_bridge)) = calls capturing_bridge @
     [ACameraCaptureSession_stopRepeating (Some 8), ACameraCaptureSession_close (Some 8),
      ACameraDevice_close (Some 3), ACaptureRequest_free (Some 5),
      ACameraOutputTarget_free (Some 4), ACaptureSessionOutput_free (Some 7),
      ACaptureSessionOutputContainer_free (Some 6), AImageReader_delete (Some 1)]"
  using stopCapture_idempotent [of new_bridge] stopCapture_idempotent [of capturing_bridge]
  by (simp add: new_bridge_def stopCapture_def capturing_bridge_def cleanup_eq cleanup_calls_def)

subsection \<open>Restarting the active camera\<close>

text \<open>
  C8. \<^verbatim>\<open>startCapture\<close> for the camera that is being captured returns true and leaves the
  object as it is: every field, and the log of library calls, is unchanged.
\<close>

theorem startCapture_same_camera:
  "capturing b \<and> currentCameraId b = cameraId \<longrightarrow>
   startCapture env cameraId width height cb b = (True, b)"
  by (simp add: startCapture_def)

theorem startCapture_same_camera_witness:
  "capturing capturing_bridge \<and> currentCameraId capturing_bridge = ''0'' \<and>
   startCapture env_open_fails ''0'' 1280 720 None capturing_bridge = (True, capturing_bridge)"
  using startCapture_same_camera [of capturing_bridge "''0''" env_open_fails 1280 720 None]
  by (simp add: capturing_bridge_def)

subsection \<open>Switching cameras\<close>

text \<open>
  C9. \<^verbatim>\<open>startCapture\<close> for another camera while capturing is \<^verbatim>\<open>startCapture\<close> on the
  object that \<^verbatim>\<open>cleanup\<close> leaves: all handles null, the flag clear. The release calls of
  the old pipeline hold no construction call, and they come in the log before every call
  the new start makes.
\<close>

theorem startCapture_switch:
  assumes "capturing b" and "currentCameraId b \<noteq> cameraId"
  shows "startCapture env cameraId width height cb b =
           startCapture env cameraId width height cb (cleanup b) \<and>
         all_null (cleanup b) \<and> \<not> capturing (cleanup b) \<and>
         calls (cleanup b) = calls b @ cleanup_calls b \<and>
         (\<forall>c \<in> set (cleanup_calls b). made_by c = None) \<and>
         (\<exists>cs. calls (snd (startCapture env cameraId width height cb b)) =
                 calls b @ cleanup_calls b @ cs)"
proof -
  have eq: "startCapture env cameraId width height cb b =
           startCapture env cameraId width height cb (cleanup b)"
    using assms by (simp add: startCapture_def)
  obtain cs where "calls (snd (startCapture env cameraId width height cb (cleanup b))) =
      calls (cleanup b) @ cs"
    using startCapture_log by blast
  with eq show ?thesis by (simp add: made_by_cleanup_calls)
qed

theorem startCapture_switch_witness:
  "capturing capturing_bridge \<and> currentCameraId capturing_bridge \<noteq> ''1'' \<and>
   calls (snd (startCapture env_open_fails ''1'' 640 480 (Some 9) capturing_bridge)) =
     calls capturing_bridge @
     [ACameraCaptureSession_stopRepeating (Some 8), ACameraCaptureSession_close (Some 8),
      ACameraDevice_close (Some 3), ACaptureRequest_free (Some 5),
      ACameraOutputTarget_free (Some 4), ACaptureSessionOutput_free (Some 7),
      ACaptureSessionOutputContainer_free (Some 6), AImageReader_delete (Some 1)] @
     [AImageReader_new 640 480 35 4 (Some 1), AImageReader_setImageListener (Some 1),
      AImageReader_getWindow (Some 1) (Some 2), ACameraManager_openCamera ''1'' None,
      AImageReader_delete (Some 1)]"
  using startCapture_switch [of capturing_bridge "''1''" env_open_fails 640 480 "Some 9"]
  by (simp add: startCapture_def env_ok_def env_open_fails_def capturing_bridge_def
      construction_steps_def Let_def call_def kImageFormat_def kMaxImages_def cleanup_eq
      cleanup_calls_def)

subsection \<open>Stopping after a device notification\<close>

text \<open>
  C10. \<^verbatim>\<open>onDeviceDisconnected\<close> and \<^verbatim>\<open>onDeviceError\<close> clear the capturing flag and
  nothing else. On an object whose flag is clear, \<^verbatim>\<open>stopCapture\<close> and the destructor
  return the object as it is: no handle is released or nulled, whatever the handles hold.
\<close>

theorem stopCapture_after_disconnect:
  "(\<not> capturing b \<longrightarrow> stopCapture b = b \<and> destructor b = b) \<and>
   onDeviceDisconnected b = b\<lparr>capturing := False\<rparr> \<and>
   onDeviceError e b = b\<lparr>capturing := False\<rparr> \<and>
   stopCapture (onDeviceDisconnected b) = b\<lparr>capturing := False\<rparr> \<and>
   stopCapture (onDeviceError e b) = b\<lparr>capturing := False\<rparr> \<and>
   destructor (onDeviceDisconnected b) = b\<lparr>capturing := False\<rparr> \<and>
   destructor (onDeviceError e b) = b\<lparr>capturing := False\<rparr>"
  by (simp add: stopCapture_def destructor_def onDeviceDisconnected_def onDeviceError_def)

theorem stopCapture_after_disconnect_witness:
  "\<not> capturing (onDeviceDisconnected
       (snd (startCapture env_ok ''0'' 640 480 (Some 9) new_bridge))) \<and>
   all_populated (destructor (onDeviceDisconnected
       (snd (startCapture env_ok ''0'' 640 480 (Some 9) new_bridge)))) \<and>
   calls (destructor (onDeviceDisconnected
       (snd (startCapture env_ok ''0'' 640 480 (Some 9) new_bridge)))) =
     calls capturing_bridge"
  using stopCapture_after_disconnect [of "onDeviceDisconnected capturing_bridge" 0]
  by (simp add: start_ok onDeviceDisconnected_def capturing_bridge_def all_populated_def)

subsection \<open>The invariant over reachable states\<close>

lemma perform_filled_own:
  "conforming env \<Longrightarrow> perform env cam w h s b = Inr b' \<Longrightarrow> filled s b'"
  by (cases s) (auto simp: Let_def call_def conforming_def split: if_splits)

lemma perform_filled_other:
  "perform env cam w h s b = Inr b' \<Longrightarrow> t \<noteq> s \<Longrightarrow> filled t b' = filled t b"
  by (cases s; cases t; auto simp: Let_def call_def split: if_splits)

lemma perform_filled:
  assumes "conforming env" "perform env cam w h s b = Inr b'"
  shows "filled s b'" "filled t b \<Longrightarrow> filled t b'"
  using perform_filled_own [OF assms] perform_filled_other [OF assms(2), of t]
  by (cases "t = s"; simp)+

lemma run_steps_filled:
  "conforming env \<Longrightarrow> run_steps env cam w h ss b = Inr b' \<Longrightarrow>
   (\<forall>t \<in> set ss. filled t b') \<and> (\<forall>t. filled t b \<longrightarrow> filled t b')"
proof (induction ss arbitrary: b)
  case Nil
  then show ?case by simp
next
  case (Cons s ss)
  from Cons.prems(2) obtain b1 where b1: "perform env cam w h s b = Inr b1"
    "run_steps env cam w h ss b1 = Inr b'"
    by (auto split: sum.splits)
  from Cons.IH [OF Cons.prems(1) b1(2)] perform_filled [OF Cons.prems(1) b1(1)]
  show ?case by auto
qed

lemma run_steps_all_populated:
  assumes "conforming env" "run_steps env cam w h construction_steps b = Inr b'"
  shows "all_populated b'"
proof -
  from run_steps_filled [OF assms] have "\<forall>t. filled t b'"
    using in_construction_steps by blast
  then have "filled CreateImageReader b'" "filled GetReaderWindow b'" "filled OpenDevice b'"
    "filled CreateOutputTarget b'" "filled CreateCaptureRequest b'"
    "filled CreateOutputContainer b'" "filled CreateSessionOutput b'"
    "filled CreateCaptureSession b'" by blast+
  then show ?thesis by (simp add: all_populated_def)
qed

lemma code_invariant_cleanup: "code_invariant (cleanup b)"
  by (simp add: code_invariant_def)

lemma all_populated_flag [simp]: "all_populated (b\<lparr>capturing := x\<rparr>) = all_populated b"
  "all_null (b\<lparr>capturing := x\<rparr>) = all_null b"
  by (simp_all add: all_populated_def all_null_def)

lemma code_invariant_startCapture:
  assumes "conforming env" "code_invariant b"
  shows "code_invariant (snd (startCapture env cam w h cb b))"
proof -
  define b0 where "b0 = (if capturing b then cleanup b else b)"
  define b1 where "b1 = b0\<lparr>frameCallback := cb, currentCameraId := cam\<rparr>"
  have b0: "code_invariant b0" using assms(2) by (simp add: b0_def code_invariant_cleanup)
  show ?thesis
  proof (cases "run_steps env cam w h construction_steps b1")
    case (Inl bf)
    then show ?thesis using assms(2) b0
      by (auto simp: startCapture_def Let_def b1_def b0_def code_invariant_cleanup)
  next
    case (Inr b')
    from run_steps_all_populated [OF assms(1) Inr] have "all_populated b'" .
    then show ?thesis using assms(2) b0 Inr
      by (auto simp: startCapture_def Let_def b1_def b0_def code_invariant_def)
  qed
qed

lemma code_invariant_apply_op:
  "op_conforming x \<Longrightarrow> code_invariant b \<Longrightarrow> code_invariant (apply_op x b)"
  by (cases x)
     (auto simp: code_invariant_startCapture code_invariant_cleanup stopCapture_def
        onDeviceDisconnected_def onDeviceError_def, auto simp: code_invariant_def)

lemma code_invariant_run_ops:
  "list_all op_conforming xs \<Longrightarrow> code_invariant b \<Longrightarrow> code_invariant (run_ops xs b)"
  by (induction xs arbitrary: b) (auto simp: code_invariant_apply_op)

text \<open>
  C2, as the specification words it, fails: after a successful start, a disconnect
  notification leaves every handle populated and the capturing flag clear.
\<close>

theorem spec_invariant_counterexample:
  "\<not> spec_invariant (run_ops [StartCapture env_ok ''0'' 640 480 (Some 9), DeviceDisconnected] new_bridge)"
  by (simp add: start_ok onDeviceDisconnected_def capturing_bridge_def spec_invariant_def all_null_def)

text \<open>
  C2, amended. In every state reached from a new object by \<^verbatim>\<open>startCapture\<close>,
  \<^verbatim>\<open>stopCapture\<close>, \<^verbatim>\<open>cleanup\<close> and the two device notifications, with a library that hands out
  a non-null pointer whenever it reports OK: either all pipeline handles are populated, or
  all are null and the capturing flag is clear. So the flag is never set with a handle
  absent; it can be clear with the handles present.
\<close>

theorem reachable_invariant:
  assumes "list_all op_conforming ops"
  shows "code_invariant (run_ops ops new_bridge)"
proof -
  have "code_invariant new_bridge" by (simp add: code_invariant_def all_null_def new_bridge_def)
  with assms show ?thesis by (rule code_invariant_run_ops)
qed


theorem reachable_invariant_witness:
  "list_all op_conforming [StartCapture env_ok ''0'' 640 480 (Some 9), DeviceDisconnected] \<and>
   all_populated (run_ops [StartCapture env_ok ''0'' 640 480 (Some 9), DeviceDisconnected] new_bridge) \<and>
   \<not> capturing (run_ops [StartCapture env_ok ''0'' 640 480 (Some 9), DeviceDisconnected] new_bridge)"
proof -
  have "conforming env_ok" by (simp add: conforming_def env_ok_def)
  then show ?thesis
    using reachable_invariant [of "[StartCapture env_ok ''0'' 640 480 (Some 9), DeviceDisconnected]"]
    by (simp add: start_ok onDeviceDisconnected_def code_invariant_def capturing_bridge_def
        all_populated_def all_null_def)
qed

section \<open>The frame handler\<close>

subsection \<open>Loops, copies, stores\<close>

lemma for_loop_rule:
  assumes "i \<le> n" "P i s"
    and "\<And>j t. i \<le> j \<Longrightarrow> j < n \<Longrightarrow> P j t \<Longrightarrow> \<exists>t'. body j t = Some t' \<and> P (j + 1) t'"
  shows "\<exists>t'. for_loop i n body s = Some t' \<and> P n t'"
  using assms
proof (induction "nat (n - i)" arbitrary: i s)
  case 0
  then have "i = n" by simp
  with 0 show ?case by (simp add: for_loop.simps)
next
  case (Suc k)
  then have lt: "i < n" by linarith
  from Suc.prems(3) [OF _ lt Suc.prems(2)] obtain t where t: "body i s = Some t" "P (i + 1) t"
    by auto
  have "k = nat (n - (i + 1))" using Suc.hyps(2) by linarith
  have step: "\<exists>t'. body j u = Some t' \<and> P (j + 1) t'" if "i + 1 \<le> j" "j < n" "P j u" for j u
    using Suc.prems(3) [of j u] that by simp
  have "i + 1 \<le> n" using lt by simp
  from Suc.hyps(1) [OF \<open>k = nat (n - (i + 1))\<close> this t(2) step]
  obtain t' where "for_loop (i + 1) n body t = Some t'" "P n t'" by blast
  with t lt show ?case by (subst for_loop.simps) simp
qed

lemma idx_lt:
  fixes r c w h :: int
  assumes "0 \<le> c" "c < w" "r < h"
  shows "r * w + c < h * w"
proof -
  have "(r + 1) * w \<le> h * w" using assms by (intro mult_right_mono) auto
  then show ?thesis using assms by (simp add: algebra_simps)
qed

lemma row_le:
  fixes j h rs :: int
  assumes "0 \<le> rs" "j < h"
  shows "j * rs \<le> (h - 1) * rs"
  using assms by (intro mult_right_mono) auto

lemma row_fits:
  fixes j h w :: int
  assumes "0 \<le> w" "j < h"
  shows "j * w + w \<le> h * w"
proof -
  have "(j + 1) * w \<le> h * w" using assms by (intro mult_right_mono) auto
  then show ?thesis by (simp add: algebra_simps)
qed

lemma nth_splice:
  assumes "d + length mid \<le> length dst" "k < length dst"
  shows "(take d dst @ mid @ drop (d + length mid) dst) ! k =
         (if d \<le> k \<and> k < d + length mid then mid ! (k - d) else dst ! k)"
proof -
  have ld: "length (take d dst) = d" using assms by simp
  consider "k < d" | "d \<le> k" "k < d + length mid" | "d + length mid \<le> k" by linarith
  then show ?thesis
  proof cases
    case 1
    then show ?thesis using assms by (simp add: nth_append)
  next
    case 2
    then have "k - d < length mid" "\<not> k < d" by linarith+
    with 2 show ?thesis using assms by (simp add: nth_append)
  next
    case 3
    then have "d + length mid + (k - d - length mid) = k" "\<not> k < d" "\<not> k - d < length mid"
      by linarith+
    with 3 assms show ?thesis by (auto simp: nth_append)
  qed
qed

lemma memcpy_spec:
  assumes "0 \<le> n" "0 \<le> soff" "soff + n \<le> int (length src)"
    "0 \<le> doff" "doff + n \<le> int (length dst)"
  shows "\<exists>buf. memcpy dst doff src soff n = Some buf \<and> length buf = length dst \<and>
     (\<forall>k. 0 \<le> k \<and> k < int (length dst) \<longrightarrow>
        buf ! nat k = (if doff \<le> k \<and> k < doff + n then src ! nat (soff + (k - doff))
                       else dst ! nat k))"
proof -
  define mid where "mid = take (nat n) (drop (nat soff) src)"
  define d where "d = nat doff"
  have lm: "length mid = nat n" using assms by (auto simp: mid_def)
  have dn: "nat (doff + n) = d + length mid" using assms by (simp add: lm d_def nat_add_distrib)
  have fit: "d + length mid \<le> length dst" using assms unfolding lm d_def by linarith
  let ?buf = "take d dst @ mid @ drop (d + length mid) dst"
  have m: "memcpy dst doff src soff n = Some ?buf"
    using assms by (simp add: memcpy_def mid_def [symmetric] d_def [symmetric] dn)
  have len: "length ?buf = length dst" using fit by simp
  have "?buf ! nat k = (if doff \<le> k \<and> k < doff + n then src ! nat (soff + (k - doff))
                       else dst ! nat k)" if k: "0 \<le> k" "k < int (length dst)" for k
  proof -
    have kl: "nat k < length dst" using k by linarith
    have c: "(d \<le> nat k \<and> nat k < d + length mid) = (doff \<le> k \<and> k < doff + n)"
      using k assms unfolding lm d_def by linarith
    have "mid ! (nat k - d) = src ! nat (soff + (k - doff))" if "doff \<le> k" "k < doff + n"
    proof -
      have "nat k - d < nat n" using that k assms unfolding d_def by linarith
      moreover have "nat soff + (nat k - d) = nat (soff + (k - doff))"
        using that k assms unfolding d_def by linarith
      moreover have "nat soff \<le> length src" using assms by linarith
      ultimately show ?thesis by (simp add: mid_def)
    qed
    then show ?thesis unfolding nth_splice [OF fit kl] c by simp
  qed
  with m len show ?thesis by blast
qed

lemma memcpy_ok:
  assumes "0 \<le> n" "0 \<le> soff" "soff + n \<le> int (length src)"
    "0 \<le> doff" "doff + n \<le> int (length dst)"
  obtains buf where "memcpy dst doff src soff n = Some buf" "length buf = length dst"
    "\<And>k. doff \<le> k \<Longrightarrow> k < doff + n \<Longrightarrow> buf ! nat k = src ! nat (soff + (k - doff))"
    "\<And>k. 0 \<le> k \<Longrightarrow> k < doff \<Longrightarrow> buf ! nat k = dst ! nat k"
    "\<And>k. doff + n \<le> k \<Longrightarrow> k < int (length dst) \<Longrightarrow> buf ! nat k = dst ! nat k"
proof -
  from memcpy_spec [OF assms] obtain buf where
    b: "memcpy dst doff src soff n = Some buf" "length buf = length dst"
    "\<And>k. 0 \<le> k \<Longrightarrow> k < int (length dst) \<Longrightarrow>
        buf ! nat k = (if doff \<le> k \<and> k < doff + n then src ! nat (soff + (k - doff))
                       else dst ! nat k)"
    by blast
  have "buf ! nat k = src ! nat (soff + (k - doff))" if "doff \<le> k" "k < doff + n" for k
  proof -
    have "0 \<le> k" "k < int (length dst)" using that assms by linarith+
    from b(3) [OF this] that show ?thesis by simp
  qed
  moreover have "buf ! nat k = dst ! nat k" if "0 \<le> k" "k < doff" for k
  proof -
    have "k < int (length dst)" "\<not> (doff \<le> k \<and> k < doff + n)" using that assms by linarith+
    with b(3) [OF that(1) this(1)] show ?thesis by simp
  qed
  moreover have "buf ! nat k = dst ! nat k" if "doff + n \<le> k" "k < int (length dst)" for k
  proof -
    have "0 \<le> k" "\<not> (doff \<le> k \<and> k < doff + n)" using that assms by linarith+
    with b(3) [OF this(1) that(2)] show ?thesis by simp
  qed
  ultimately show thesis using b(1,2) that by blast
qed

lemma store_ok:
  assumes "0 \<le> i" "i < int (length dst)"
  obtains buf where "store dst i x = Some buf" "length buf = length dst"
    "buf ! nat i = x"
    "\<And>k. 0 \<le> k \<Longrightarrow> k \<noteq> i \<Longrightarrow> buf ! nat k = dst ! nat k"
proof -
  have "store dst i x = Some (dst[nat i := x])" using assms by (simp add: store_def)
  moreover have "(dst[nat i := x]) ! nat i = x" using assms by simp
  moreover have "(dst[nat i := x]) ! nat k = dst ! nat k" if "0 \<le> k" "k \<noteq> i" for k
  proof -
    have "nat i \<noteq> nat k" using that assms by linarith
    then show ?thesis by simp
  qed
  ultimately show thesis using that by simp
qed

lemma cdiv_nonneg: "0 \<le> a \<Longrightarrow> 0 < b \<Longrightarrow> cdiv a b = a div b"
  by (cases "a = 0") (simp_all add: cdiv_def sgn_if)

subsection \<open>The luma copy\<close>

lemma copy_Y_plane_spec:
  assumes "0 < w" "0 < h" "0 \<le> rs" "(h - 1) * rs + w \<le> int (length y)"
    "w * h \<le> int (length buf)"
  shows "\<exists>buf'. copy_Y_plane w h rs y buf = Some buf' \<and> length buf' = length buf \<and>
     (\<forall>row col. 0 \<le> row \<and> row < h \<and> 0 \<le> col \<and> col < w \<longrightarrow>
        buf' ! nat (row * w + col) = y ! nat (row * rs + col))"
proof (cases "rs = w")
  case True
  have "w * h \<le> int (length y)" using assms(4) True by (simp add: algebra_simps)
  with assms have "\<exists>b. memcpy buf 0 y 0 (w * h) = Some b \<and> length b = length buf \<and>
     (\<forall>k. 0 \<le> k \<and> k < int (length buf) \<longrightarrow>
        b ! nat k = (if 0 \<le> k \<and> k < 0 + w * h then y ! nat (0 + (k - 0)) else buf ! nat k))"
    by (intro memcpy_spec) auto
  then obtain b where b: "memcpy buf 0 y 0 (w * h) = Some b" "length b = length buf"
    "\<And>k. 0 \<le> k \<Longrightarrow> k < int (length buf) \<Longrightarrow>
        b ! nat k = (if 0 \<le> k \<and> k < w * h then y ! nat k else buf ! nat k)"
    by auto
  have "b ! nat (row * w + col) = y ! nat (row * rs + col)"
    if "0 \<le> row" "row < h" "0 \<le> col" "col < w" for row col
  proof -
    have "row * w + col < h * w" using that by (intro idx_lt) auto
    moreover have "0 \<le> row * w" using that assms by simp
    ultimately show ?thesis using b(3) [of "row * w + col"] that assms True
      by (simp add: mult.commute)
  qed
  with b show ?thesis by (simp add: copy_Y_plane_def True)
next
  case False
  define P where "P j b \<longleftrightarrow> length b = length buf \<and>
     (\<forall>row col. 0 \<le> row \<and> row < j \<and> 0 \<le> col \<and> col < w \<longrightarrow>
        b ! nat (row * w + col) = y ! nat (row * rs + col))" for j b
  have step: "\<exists>t'. memcpy t (j * w) y (j * rs) w = Some t' \<and> P (j + 1) t'"
    if j: "0 \<le> j" "j < h" and t: "P j t" for j t
  proof -
    have lt: "length t = length buf" using t by (simp add: P_def)
    have a1: "0 \<le> j * rs" "0 \<le> j * w" using j assms by simp_all
    have a2: "j * rs + w \<le> int (length y)" using row_le [OF assms(3) j(2)] assms(4) by linarith
    have a3: "j * w + w \<le> int (length t)"
      using row_fits [of w j h] j assms lt by (simp add: mult.commute)
    from memcpy_spec [of w "j * rs" y "j * w" t] a1 a2 a3 assms(1)
    obtain t' where t': "memcpy t (j * w) y (j * rs) w = Some t'" "length t' = length t"
      "\<And>k. 0 \<le> k \<Longrightarrow> k < int (length t) \<Longrightarrow>
        t' ! nat k = (if j * w \<le> k \<and> k < j * w + w then y ! nat (j * rs + (k - j * w))
                      else t ! nat k)"
      by auto
    have "t' ! nat (row * w + col) = y ! nat (row * rs + col)"
      if rc: "0 \<le> row" "row < j + 1" "0 \<le> col" "col < w" for row col
    proof (cases "row = j")
      case True
      have "0 \<le> j * w + col" "j * w + col < int (length t)" using a1 a3 rc by linarith+
      from t'(3) [OF this] rc show ?thesis by (simp add: True)
    next
      case False
      then have rj: "row < j" using rc by simp
      have lt1: "row * w + col < j * w" using rc rj by (intro idx_lt) auto
      have "0 \<le> row * w" using rc assms by simp
      then have "0 \<le> row * w + col" "row * w + col < int (length t)"
        using lt1 a3 rc assms by linarith+
      from t'(3) [OF this] lt1 have "t' ! nat (row * w + col) = t ! nat (row * w + col)"
        by simp
      also have "\<dots> = y ! nat (row * rs + col)" using t rc rj by (simp add: P_def)
      finally show ?thesis .
    qed
    with t' lt show ?thesis by (auto simp: P_def)
  qed
  have "P 0 buf" by (auto simp: P_def)
  from for_loop_rule [of 0 h P buf "\<lambda>row buf. memcpy buf (row * w) y (row * rs) w", OF _ this]
    step assms(2)
  obtain b where "for_loop 0 h (\<lambda>row buf. memcpy buf (row * w) y (row * rs) w) buf = Some b"
    "P h b" by auto
  then show ?thesis by (simp add: copy_Y_plane_def False P_def)
qed

subsection \<open>The chroma copy\<close>

lemma chroma_row_doneD:
  assumes "chroma_row_done cw uDst vDst u v rs ps j t t'"
  shows "length t' = length t"
    and "0 \<le> c \<Longrightarrow> c < cw \<Longrightarrow> t' ! nat (uDst + j * cw + c) = u ! nat (j * rs + c * ps)"
    and "0 \<le> c \<Longrightarrow> c < cw \<Longrightarrow> t' ! nat (vDst + j * cw + c) = v ! nat (j * rs + c * ps)"
    and "0 \<le> k \<Longrightarrow> k < int (length t) \<Longrightarrow>
         k < uDst + j * cw \<or> uDst + j * cw + cw \<le> k \<Longrightarrow>
         k < vDst + j * cw \<or> vDst + j * cw + cw \<le> k \<Longrightarrow> t' ! nat k = t ! nat k"
  using assms unfolding chroma_row_done_def by (simp_all add: not_le not_less)

lemma chroma_rows:
  assumes cw: "0 \<le> cw" and ch: "0 \<le> ch" and uDst: "0 \<le> uDst"
    and vDst: "vDst = uDst + cw * ch"
    and len: "vDst + cw * ch \<le> int (length buf)"
    and body: "\<And>j t. 0 \<le> j \<Longrightarrow> j < ch \<Longrightarrow> length t = length buf \<Longrightarrow>
       \<exists>t'. body j t = Some t' \<and> chroma_row_done cw uDst vDst u v rs ps j t t'"
  shows "\<exists>buf'. for_loop 0 ch body buf = Some buf' \<and> length buf' = length buf \<and>
     (\<forall>k. 0 \<le> k \<and> k < uDst \<longrightarrow> buf' ! nat k = buf ! nat k) \<and>
     (\<forall>row col. 0 \<le> row \<and> row < ch \<and> 0 \<le> col \<and> col < cw \<longrightarrow>
        buf' ! nat (uDst + row * cw + col) = u ! nat (row * rs + col * ps) \<and>
        buf' ! nat (vDst + row * cw + col) = v ! nat (row * rs + col * ps))"
proof -
  define P where "P j b \<longleftrightarrow> length b = length buf \<and>
     (\<forall>k. 0 \<le> k \<and> k < uDst \<longrightarrow> b ! nat k = buf ! nat k) \<and>
     (\<forall>row col. 0 \<le> row \<and> row < j \<and> 0 \<le> col \<and> col < cw \<longrightarrow>
        b ! nat (uDst + row * cw + col) = u ! nat (row * rs + col * ps) \<and>
        b ! nat (vDst + row * cw + col) = v ! nat (row * rs + col * ps))" for j b
  have PD: "length b = length buf"
    "\<And>k. 0 \<le> k \<Longrightarrow> k < uDst \<Longrightarrow> b ! nat k = buf ! nat k"
    "\<And>row col. 0 \<le> row \<Longrightarrow> row < j \<Longrightarrow> 0 \<le> col \<Longrightarrow> col < cw \<Longrightarrow>
        b ! nat (uDst + row * cw + col) = u ! nat (row * rs + col * ps)"
    "\<And>row col. 0 \<le> row \<Longrightarrow> row < j \<Longrightarrow> 0 \<le> col \<Longrightarrow> col < cw \<Longrightarrow>
        b ! nat (vDst + row * cw + col) = v ! nat (row * rs + col * ps)"
    if "P j b" for j b
    using that unfolding P_def by simp_all
  have step: "\<exists>t'. body j t = Some t' \<and> P (j + 1) t'"
    if j: "0 \<le> j" "j < ch" and t: "P j t" for j t
  proof -
    have lt: "length t = length buf" using PD(1) [OF t] .
    from body [OF j lt] obtain t' where t': "body j t = Some t'"
      and d: "chroma_row_done cw uDst vDst u v rs ps j t t'" by blast
    note dd = chroma_row_doneD [OF d]
    have jcw: "0 \<le> j * cw" using j cw by simp
    have jfit: "j * cw + cw \<le> cw * ch" using row_fits [OF cw j(2)] by (simp add: mult.commute)
    have cc: "0 \<le> cw * ch" using cw ch by simp
    have below: "t' ! nat k = t ! nat k" if k: "0 \<le> k" "k < uDst + j * cw" for k
    proof (rule dd(4))
      show "0 \<le> k" by fact
      show "k < int (length t)" using k jfit cw vDst len lt cc by linarith
      show "k < uDst + j * cw \<or> uDst + j * cw + cw \<le> k" using k by simp
      have "k < vDst + j * cw" using k vDst cc by linarith
      then show "k < vDst + j * cw \<or> vDst + j * cw + cw \<le> k" by simp
    qed
    have between: "t' ! nat k = t ! nat k"
      if k: "uDst + j * cw + cw \<le> k" "k < vDst + j * cw" for k
    proof (rule dd(4))
      show "k < int (length t)" using k jfit cw vDst len lt cc by linarith
      show "0 \<le> k" using k uDst jcw cw by linarith
      show "k < uDst + j * cw \<or> uDst + j * cw + cw \<le> k" using k by simp
      show "k < vDst + j * cw \<or> vDst + j * cw + cw \<le> k" using k by simp
    qed
    have f1: "t' ! nat k = buf ! nat k" if k: "0 \<le> k" "k < uDst" for k
    proof -
      have "k < uDst + j * cw" using k jcw by linarith
      from below [OF k(1) this] PD(2) [OF t k] show ?thesis by simp
    qed
    have f2: "t' ! nat (uDst + row * cw + col) = u ! nat (row * rs + col * ps) \<and>
              t' ! nat (vDst + row * cw + col) = v ! nat (row * rs + col * ps)"
      if rc: "0 \<le> row" "row < j + 1" "0 \<le> col" "col < cw" for row col
    proof (cases "row = j")
      case True
      with dd(2,3) [OF rc(3,4)] show ?thesis by simp
    next
      case False
      then have rj: "row < j" using rc by simp
      have i1: "row * cw + col < j * cw" using rc rj by (intro idx_lt) auto
      have i0: "0 \<le> row * cw" using rc cw by simp
      have a: "0 \<le> uDst + row * cw + col" "uDst + row * cw + col < uDst + j * cw"
        using i0 i1 rc uDst by linarith+
      have b: "uDst + j * cw + cw \<le> vDst + row * cw + col"
        "vDst + row * cw + col < vDst + j * cw"
        using i0 i1 rc jfit vDst by linarith+
      from below [OF a] between [OF b] PD(3,4) [OF t rc(1) rj rc(3,4)]
      show ?thesis by simp
    qed
    have "P (j + 1) t'"
      unfolding P_def
    proof (intro conjI allI impI)
      show "length t' = length buf" using dd(1) lt by simp
    next
      fix k assume "0 \<le> k \<and> k < uDst"
      then show "t' ! nat k = buf ! nat k" using f1 by simp
    next
      fix row col assume "0 \<le> row \<and> row < j + 1 \<and> 0 \<le> col \<and> col < cw"
      then show "t' ! nat (uDst + row * cw + col) = u ! nat (row * rs + col * ps)"
        using f2 [of row col] by simp
    next
      fix row col assume "0 \<le> row \<and> row < j + 1 \<and> 0 \<le> col \<and> col < cw"
      then show "t' ! nat (vDst + row * cw + col) = v ! nat (row * rs + col * ps)"
        using f2 [of row col] by simp
    qed
    with t' show ?thesis by simp
  qed
  have "P 0 buf" unfolding P_def by (intro conjI allI impI; (elim conjE)?; (linarith | simp))
  from for_loop_rule [of 0 ch P buf body, OF ch this] step
  obtain b where b: "for_loop 0 ch body buf = Some b" "P ch b" by auto
  from b(2) have "length b = length buf \<and>
     (\<forall>k. 0 \<le> k \<and> k < uDst \<longrightarrow> b ! nat k = buf ! nat k) \<and>
     (\<forall>row col. 0 \<le> row \<and> row < ch \<and> 0 \<le> col \<and> col < cw \<longrightarrow>
        b ! nat (uDst + row * cw + col) = u ! nat (row * rs + col * ps) \<and>
        b ! nat (vDst + row * cw + col) = v ! nat (row * rs + col * ps))"
    unfolding P_def .
  with b(1) show ?thesis by simp
qed

lemma planar_row:
  assumes cw: "0 \<le> cw" and j: "0 \<le> j" "j < ch" and rs: "0 \<le> rs" and uDst: "0 \<le> uDst"
    and vDst: "vDst = uDst + cw * ch" and len: "vDst + cw * ch \<le> int (length t)"
    and fu: "(ch - 1) * rs + (cw - 1) < int (length u)"
    and fv: "(ch - 1) * rs + (cw - 1) < int (length v)"
  shows "\<exists>t'. (memcpy t (uDst + j * cw) u (j * rs) cw \<bind>
               (\<lambda>buf. memcpy buf (vDst + j * cw) v (j * rs) cw)) = Some t' \<and>
              chroma_row_done cw uDst vDst u v rs 1 j t t'"
proof -
  have jcw: "0 \<le> j * cw" using j cw by simp
  have jrs: "0 \<le> j * rs" using j rs by simp
  have jfit: "j * cw + cw \<le> cw * ch" using row_fits [OF cw j(2)] by (simp add: mult.commute)
  have jle: "j * rs \<le> (ch - 1) * rs" using row_le [OF rs j(2)] .
  have cc: "0 \<le> cw * ch" using cw j by simp
  have s1: "j * rs + cw \<le> int (length u)" "j * rs + cw \<le> int (length v)"
    using jle fu fv by linarith+
  have d1: "0 \<le> uDst + j * cw" "uDst + j * cw + cw \<le> int (length t)"
    using uDst jcw jfit vDst len cc by linarith+
  from memcpy_ok [OF cw jrs s1(1) d1]
  obtain t1 where t1: "memcpy t (uDst + j * cw) u (j * rs) cw = Some t1" "length t1 = length t"
    and t1_in: "\<And>k. uDst + j * cw \<le> k \<Longrightarrow> k < uDst + j * cw + cw \<Longrightarrow>
       t1 ! nat k = u ! nat (j * rs + (k - (uDst + j * cw)))"
    and t1_lo: "\<And>k. 0 \<le> k \<Longrightarrow> k < uDst + j * cw \<Longrightarrow> t1 ! nat k = t ! nat k"
    and t1_hi: "\<And>k. uDst + j * cw + cw \<le> k \<Longrightarrow> k < int (length t) \<Longrightarrow>
       t1 ! nat k = t ! nat k"
    by blast
  have d2: "0 \<le> vDst + j * cw" "vDst + j * cw + cw \<le> int (length t1)"
    using uDst jcw jfit vDst len cc t1(2) by linarith+
  from memcpy_ok [OF cw jrs s1(2) d2]
  obtain t2 where t2: "memcpy t1 (vDst + j * cw) v (j * rs) cw = Some t2" "length t2 = length t1"
    and t2_in: "\<And>k. vDst + j * cw \<le> k \<Longrightarrow> k < vDst + j * cw + cw \<Longrightarrow>
       t2 ! nat k = v ! nat (j * rs + (k - (vDst + j * cw)))"
    and t2_lo: "\<And>k. 0 \<le> k \<Longrightarrow> k < vDst + j * cw \<Longrightarrow> t2 ! nat k = t1 ! nat k"
    and t2_hi: "\<And>k. vDst + j * cw + cw \<le> k \<Longrightarrow> k < int (length t1) \<Longrightarrow>
       t2 ! nat k = t1 ! nat k"
    by blast
  have "chroma_row_done cw uDst vDst u v rs 1 j t t2"
    unfolding chroma_row_done_def
  proof (intro conjI allI impI)
    show "length t2 = length t" using t1(2) t2(2) by simp
  next
    fix c assume c: "0 \<le> c \<and> c < cw"
    let ?k = "uDst + j * cw + c"
    have "t2 ! nat ?k = t1 ! nat ?k" using c d1 jfit jcw vDst by (intro t2_lo) linarith+
    also have "\<dots> = u ! nat (j * rs + (?k - (uDst + j * cw)))"
      using c by (intro t1_in) linarith+
    finally show "t2 ! nat ?k = u ! nat (j * rs + c * 1)" by simp
  next
    fix c assume c: "0 \<le> c \<and> c < cw"
    let ?k = "vDst + j * cw + c"
    have "t2 ! nat ?k = v ! nat (j * rs + (?k - (vDst + j * cw)))"
      using c by (intro t2_in) linarith+
    then show "t2 ! nat ?k = v ! nat (j * rs + c * 1)" by simp
  next
    fix k assume k: "0 \<le> k \<and> k < int (length t) \<and>
       \<not> (uDst + j * cw \<le> k \<and> k < uDst + j * cw + cw) \<and>
       \<not> (vDst + j * cw \<le> k \<and> k < vDst + j * cw + cw)"
    have a: "t2 ! nat k = t1 ! nat k"
    proof (cases "k < vDst + j * cw")
      case True
      with k show ?thesis by (intro t2_lo) linarith+
    next
      case False
      with k t1(2) show ?thesis by (intro t2_hi) linarith+
    qed
    have b: "t1 ! nat k = t ! nat k"
    proof (cases "k < uDst + j * cw")
      case True
      with k show ?thesis by (intro t1_lo) linarith+
    next
      case False
      with k show ?thesis by (intro t1_hi) linarith+
    qed
    from a b show "t2 ! nat k = t ! nat k" by simp
  qed
  with t1(1) t2(1) show ?thesis by simp
qed

lemma deinterleave_row:
  assumes cw: "0 \<le> cw" and j: "0 \<le> j" "j < ch" and rs: "0 \<le> rs" and ps: "0 \<le> ps"
    and uDst: "0 \<le> uDst"
    and vDst: "vDst = uDst + cw * ch" and len: "vDst + cw * ch \<le> int (length t)"
    and fu: "(ch - 1) * rs + (cw - 1) * ps < int (length u)"
    and fv: "(ch - 1) * rs + (cw - 1) * ps < int (length v)"
  shows "\<exists>t'. for_loop 0 cw
                 (\<lambda>col buf. do {
                     x \<leftarrow> load u (j * rs + col * ps);
                     buf \<leftarrow> store buf (uDst + j * cw + col) x;
                     y \<leftarrow> load v (j * rs + col * ps);
                     store buf (vDst + j * cw + col) y
                   }) t = Some t' \<and>
              chroma_row_done cw uDst vDst u v rs ps j t t'"
proof -
  let ?body = "\<lambda>col buf. do {
                     x \<leftarrow> load u (j * rs + col * ps);
                     buf \<leftarrow> store buf (uDst + j * cw + col) x;
                     y \<leftarrow> load v (j * rs + col * ps);
                     store buf (vDst + j * cw + col) y
                   }"
  have jcw: "0 \<le> j * cw" using j cw by simp
  have jrs: "0 \<le> j * rs" using j rs by simp
  have jfit: "j * cw + cw \<le> cw * ch" using row_fits [OF cw j(2)] by (simp add: mult.commute)
  have jle: "j * rs \<le> (ch - 1) * rs" using row_le [OF rs j(2)] .
  have cc: "0 \<le> cw * ch" using cw j by simp
  define Q where "Q c b \<longleftrightarrow> length b = length t \<and>
     (\<forall>c'. 0 \<le> c' \<and> c' < c \<longrightarrow>
        b ! nat (uDst + j * cw + c') = u ! nat (j * rs + c' * ps) \<and>
        b ! nat (vDst + j * cw + c') = v ! nat (j * rs + c' * ps)) \<and>
     (\<forall>k. 0 \<le> k \<and> k < int (length t) \<and>
          \<not> (uDst + j * cw \<le> k \<and> k < uDst + j * cw + cw) \<and>
          \<not> (vDst + j * cw \<le> k \<and> k < vDst + j * cw + cw) \<longrightarrow>
        b ! nat k = t ! nat k)" for c b
  have QD: "length b = length t"
    "\<And>c'. 0 \<le> c' \<Longrightarrow> c' < c \<Longrightarrow> b ! nat (uDst + j * cw + c') = u ! nat (j * rs + c' * ps)"
    "\<And>c'. 0 \<le> c' \<Longrightarrow> c' < c \<Longrightarrow> b ! nat (vDst + j * cw + c') = v ! nat (j * rs + c' * ps)"
    "\<And>k. 0 \<le> k \<Longrightarrow> k < int (length t) \<Longrightarrow>
          \<not> (uDst + j * cw \<le> k \<and> k < uDst + j * cw + cw) \<Longrightarrow>
          \<not> (vDst + j * cw \<le> k \<and> k < vDst + j * cw + cw) \<Longrightarrow> b ! nat k = t ! nat k"
    if "Q c b" for c b
    using that unfolding Q_def by simp_all
  have step: "\<exists>b'. ?body c b = Some b' \<and> Q (c + 1) b'"
    if c: "0 \<le> c" "c < cw" and b: "Q c b" for c b
  proof -
    note q = QD [OF b]
    have cps: "0 \<le> c * ps" using c ps by simp
    have cle: "c * ps \<le> (cw - 1) * ps" using row_le [OF ps c(2)] .
    have src: "0 \<le> j * rs + c * ps" "j * rs + c * ps < int (length u)"
      "j * rs + c * ps < int (length v)"
      using jrs cps jle cle fu fv by linarith+
    have lu: "load u (j * rs + c * ps) = Some (u ! nat (j * rs + c * ps))"
      and lv: "load v (j * rs + c * ps) = Some (v ! nat (j * rs + c * ps))"
      using src by (simp_all add: load_def)
    let ?iu = "uDst + j * cw + c" and ?iv = "vDst + j * cw + c"
    have iu: "0 \<le> ?iu" "?iu < int (length b)" using uDst jcw c jfit vDst len cc q(1) by linarith+
    from store_ok [OF iu, of "u ! nat (j * rs + c * ps)"]
    obtain b1 where b1: "store b ?iu (u ! nat (j * rs + c * ps)) = Some b1"
      "length b1 = length b" "b1 ! nat ?iu = u ! nat (j * rs + c * ps)"
      and b1o: "\<And>k. 0 \<le> k \<Longrightarrow> k \<noteq> ?iu \<Longrightarrow> b1 ! nat k = b ! nat k" by blast
    have iv: "0 \<le> ?iv" "?iv < int (length b1)"
      using uDst jcw c jfit vDst len cc q(1) b1(2) by linarith+
    from store_ok [OF iv, of "v ! nat (j * rs + c * ps)"]
    obtain b2 where b2: "store b1 ?iv (v ! nat (j * rs + c * ps)) = Some b2"
      "length b2 = length b1" "b2 ! nat ?iv = v ! nat (j * rs + c * ps)"
      and b2o: "\<And>k. 0 \<le> k \<Longrightarrow> k \<noteq> ?iv \<Longrightarrow> b2 ! nat k = b1 ! nat k" by blast
    have run: "?body c b = Some b2" using lu lv b1(1) b2(1) by simp
    have ne: "?iu \<noteq> ?iv" using jfit jcw c vDst by linarith
    have "Q (c + 1) b2"
      unfolding Q_def
    proof (intro conjI allI impI)
      show "length b2 = length t" using b1(2) b2(2) q(1) by simp
    next
      fix c' assume c': "0 \<le> c' \<and> c' < c + 1"
      let ?k = "uDst + j * cw + c'"
      have k: "0 \<le> ?k" "?k \<noteq> ?iv" using c' uDst jcw jfit c vDst by linarith+
      have "b2 ! nat ?k = b1 ! nat ?k" using b2o [OF k] .
      also have "\<dots> = u ! nat (j * rs + c' * ps)"
      proof (cases "c' = c")
        case True
        then show ?thesis using b1(3) by simp
      next
        case False
        then have "c' < c" "?k \<noteq> ?iu" using c' by linarith+
        with b1o [OF k(1) this(2)] q(2) [of c'] c' show ?thesis by simp
      qed
      finally show "b2 ! nat ?k = u ! nat (j * rs + c' * ps)" .
    next
      fix c' assume c': "0 \<le> c' \<and> c' < c + 1"
      let ?k = "vDst + j * cw + c'"
      have k: "0 \<le> ?k" "?k \<noteq> ?iu" using c' uDst jcw jfit c vDst cc by linarith+
      show "b2 ! nat ?k = v ! nat (j * rs + c' * ps)"
      proof (cases "c' = c")
        case True
        then show ?thesis using b2(3) by simp
      next
        case False
        then have lt: "c' < c" "?k \<noteq> ?iv" using c' by linarith+
        have "b2 ! nat ?k = b1 ! nat ?k" using b2o [OF k(1) lt(2)] .
        also have "\<dots> = b ! nat ?k" using b1o [OF k] .
        also have "\<dots> = v ! nat (j * rs + c' * ps)" using q(3) [of c'] c' lt by simp
        finally show ?thesis .
      qed
    next
      fix k assume k: "0 \<le> k \<and> k < int (length t) \<and>
         \<not> (uDst + j * cw \<le> k \<and> k < uDst + j * cw + cw) \<and>
         \<not> (vDst + j * cw \<le> k \<and> k < vDst + j * cw + cw)"
      then have n: "0 \<le> k" "k \<noteq> ?iu" "k \<noteq> ?iv" using c by linarith+
      have "b2 ! nat k = b1 ! nat k" using b2o [OF n(1,3)] .
      also have "\<dots> = b ! nat k" using b1o [OF n(1,2)] .
      also have "\<dots> = t ! nat k" using q(4) [of k] k by simp
      finally show "b2 ! nat k = t ! nat k" .
    qed
    with run show ?thesis by blast
  qed
  have "Q 0 t" unfolding Q_def by (intro conjI allI impI; (elim conjE)?; (linarith | simp))
  from for_loop_rule [of 0 cw Q t ?body, OF cw this] step
  obtain b where b: "for_loop 0 cw ?body t = Some b" "Q cw b" by auto
  from b(2) have "chroma_row_done cw uDst vDst u v rs ps j t b"
    unfolding Q_def chroma_row_done_def .
  with b(1) show ?thesis by blast
qed

lemma bulk_chroma:
  assumes cw: "0 \<le> cw" and ch: "0 \<le> ch" and uDst: "0 \<le> uDst"
    and len: "uDst + cw * ch + cw * ch \<le> int (length buf)"
    and fu: "(ch - 1) * cw + (cw - 1) < int (length u)"
    and fv: "(ch - 1) * cw + (cw - 1) < int (length v)"
  shows "\<exists>buf'. (memcpy buf uDst u 0 (cw * ch) \<bind>
                 (\<lambda>b. memcpy b (uDst + cw * ch) v 0 (cw * ch))) = Some buf' \<and>
     length buf' = length buf \<and>
     (\<forall>k. 0 \<le> k \<and> k < uDst \<longrightarrow> buf' ! nat k = buf ! nat k) \<and>
     (\<forall>row col. 0 \<le> row \<and> row < ch \<and> 0 \<le> col \<and> col < cw \<longrightarrow>
        buf' ! nat (uDst + row * cw + col) = u ! nat (row * cw + col * 1) \<and>
        buf' ! nat (uDst + cw * ch + row * cw + col) = v ! nat (row * cw + col * 1))"
proof -
  have cc: "0 \<le> cw * ch" using cw ch by simp
  have e: "(ch - 1) * cw + (cw - 1) = cw * ch - 1" by (simp add: algebra_simps)
  have su: "0 + cw * ch \<le> int (length u)" and sv: "0 + cw * ch \<le> int (length v)"
    using fu fv unfolding e by linarith+
  have d1: "uDst + cw * ch \<le> int (length buf)" using len cc by linarith
  have z: "(0::int) \<le> 0" by simp
  from memcpy_ok [OF cc z su uDst d1]
  obtain b1 where b1: "memcpy buf uDst u 0 (cw * ch) = Some b1" "length b1 = length buf"
    and b1_in: "\<And>k. uDst \<le> k \<Longrightarrow> k < uDst + cw * ch \<Longrightarrow> b1 ! nat k = u ! nat (0 + (k - uDst))"
    and b1_lo: "\<And>k. 0 \<le> k \<Longrightarrow> k < uDst \<Longrightarrow> b1 ! nat k = buf ! nat k"
    and b1_hi: "\<And>k. uDst + cw * ch \<le> k \<Longrightarrow> k < int (length buf) \<Longrightarrow>
        b1 ! nat k = buf ! nat k"
    by blast
  have d2: "0 \<le> uDst + cw * ch" "uDst + cw * ch + cw * ch \<le> int (length b1)"
    using uDst cc len b1(2) by linarith+
  from memcpy_ok [OF cc z sv d2]
  obtain b2 where b2: "memcpy b1 (uDst + cw * ch) v 0 (cw * ch) = Some b2"
      "length b2 = length b1"
    and b2_in: "\<And>k. uDst + cw * ch \<le> k \<Longrightarrow> k < uDst + cw * ch + cw * ch \<Longrightarrow>
        b2 ! nat k = v ! nat (0 + (k - (uDst + cw * ch)))"
    and b2_lo: "\<And>k. 0 \<le> k \<Longrightarrow> k < uDst + cw * ch \<Longrightarrow> b2 ! nat k = b1 ! nat k"
    and b2_hi: "\<And>k. uDst + cw * ch + cw * ch \<le> k \<Longrightarrow> k < int (length b1) \<Longrightarrow>
        b2 ! nat k = b1 ! nat k"
    by blast
  have f1: "b2 ! nat k = buf ! nat k" if k: "0 \<le> k" "k < uDst" for k
  proof -
    have "k < uDst + cw * ch" using k cc by linarith
    from b2_lo [OF k(1) this] b1_lo [OF k] show ?thesis by simp
  qed
  have f2: "b2 ! nat (uDst + row * cw + col) = u ! nat (row * cw + col * 1) \<and>
        b2 ! nat (uDst + cw * ch + row * cw + col) = v ! nat (row * cw + col * 1)"
    if rc: "0 \<le> row" "row < ch" "0 \<le> col" "col < cw" for row col
  proof -
    have i1: "row * cw + col < cw * ch" using idx_lt [OF rc(3,4,2)] by (simp add: mult.commute)
    have i0: "0 \<le> row * cw" using rc cw by simp
    let ?k = "uDst + row * cw + col"
    have "b2 ! nat ?k = b1 ! nat ?k" using i0 i1 rc uDst by (intro b2_lo) linarith+
    also have "\<dots> = u ! nat (0 + (?k - uDst))" using i0 i1 rc by (intro b1_in) linarith+
    finally have a: "b2 ! nat ?k = u ! nat (row * cw + col * 1)" by simp
    let ?m = "uDst + cw * ch + row * cw + col"
    have "b2 ! nat ?m = v ! nat (0 + (?m - (uDst + cw * ch)))"
      using i0 i1 rc by (intro b2_in) linarith+
    then have "b2 ! nat ?m = v ! nat (row * cw + col * 1)" by simp
    with a show ?thesis by simp
  qed
  have l: "length b2 = length buf" using b1(2) b2(2) by simp
  have r: "(memcpy buf uDst u 0 (cw * ch) \<bind>
                 (\<lambda>b. memcpy b (uDst + cw * ch) v 0 (cw * ch))) = Some b2"
    using b1(1) b2(1) by simp
  show ?thesis
  proof (intro exI conjI allI impI)
    show "(memcpy buf uDst u 0 (cw * ch) \<bind>
                 (\<lambda>b. memcpy b (uDst + cw * ch) v 0 (cw * ch))) = Some b2" by (rule r)
    show "length b2 = length buf" by (rule l)
  next
    fix k assume "0 \<le> k \<and> k < uDst"
    then show "b2 ! nat k = buf ! nat k" using f1 by blast
  next
    fix row col assume "0 \<le> row \<and> row < ch \<and> 0 \<le> col \<and> col < cw"
    then show "b2 ! nat (uDst + row * cw + col) = u ! nat (row * cw + col * 1)"
      using f2 [of row col] by blast
  next
    fix row col assume "0 \<le> row \<and> row < ch \<and> 0 \<le> col \<and> col < cw"
    then show "b2 ! nat (uDst + cw * ch + row * cw + col) = v ! nat (row * cw + col * 1)"
      using f2 [of row col] by blast
  qed
qed

lemma copy_UV_planes_spec:
  assumes w: "0 < w" and h: "0 < h" and rs: "0 \<le> rs" and ps: "0 \<le> ps"
    and cw: "cw = w div 2" and ch: "ch = h div 2"
    and fu: "(ch - 1) * rs + (cw - 1) * ps < int (length u)"
    and fv: "(ch - 1) * rs + (cw - 1) * ps < int (length v)"
    and len: "w * h + cw * ch + cw * ch \<le> int (length buf)"
  shows "\<exists>buf'. copy_UV_planes w h rs ps u v buf = Some buf' \<and> length buf' = length buf \<and>
     (\<forall>k. 0 \<le> k \<and> k < w * h \<longrightarrow> buf' ! nat k = buf ! nat k) \<and>
     (\<forall>row col. 0 \<le> row \<and> row < ch \<and> 0 \<le> col \<and> col < cw \<longrightarrow>
        buf' ! nat (w * h + row * cw + col) = u ! nat (row * rs + col * ps) \<and>
        buf' ! nat (w * h + cw * ch + row * cw + col) = v ! nat (row * rs + col * ps))"
proof -
  have cdw: "cdiv w 2 = cw" and cdh: "cdiv h 2 = ch"
    using w h cw ch by (simp_all add: cdiv_nonneg)
  have cw0: "0 \<le> cw" and ch0: "0 \<le> ch" using w h cw ch by simp_all
  have u0: "0 \<le> w * h" using w h by simp
  have len': "w * h + cw * ch + cw * ch \<le> int (length t)"
    if "length t = length buf" for t :: "byte list"
    using len that by simp
  consider (planar_bulk) "ps = 1" "rs = cw" | (planar_rows) "ps = 1" "rs \<noteq> cw"
    | (interleaved) "ps \<noteq> 1"
    by blast
  then show ?thesis
  proof cases
    case planar_bulk
    have fu': "(ch - 1) * cw + (cw - 1) < int (length u)"
      and fv': "(ch - 1) * cw + (cw - 1) < int (length v)"
      using fu fv planar_bulk by simp_all
    have eq: "copy_UV_planes w h cw 1 u v buf =
        (memcpy buf (w * h) u 0 (cw * ch) \<bind>
           (\<lambda>b. memcpy b (w * h + cw * ch) v 0 (cw * ch)))"
      by (simp add: copy_UV_planes_def Let_def cdw cdh)
    show ?thesis unfolding planar_bulk eq
      by (rule bulk_chroma [OF cw0 ch0 u0 len fu' fv'])
  next
    case planar_rows
    have fu': "(ch - 1) * rs + (cw - 1) < int (length u)"
      and fv': "(ch - 1) * rs + (cw - 1) < int (length v)"
      using fu fv planar_rows by simp_all
    let ?body = "\<lambda>row buf. memcpy buf (w * h + row * cw) u (row * rs) cw \<bind>
               (\<lambda>buf. memcpy buf (w * h + cw * ch + row * cw) v (row * rs) cw)"
    have eq: "copy_UV_planes w h rs 1 u v buf = for_loop 0 ch ?body buf"
      using planar_rows(2) by (simp add: copy_UV_planes_def Let_def cdw cdh)
    have body: "\<exists>t'. ?body j t = Some t' \<and>
              chroma_row_done cw (w * h) (w * h + cw * ch) u v rs 1 j t t'"
      if "0 \<le> j" "j < ch" "length t = length buf" for j t
      by (rule planar_row [OF cw0 that(1,2) rs u0 refl len' [OF that(3)] fu' fv'])
    show ?thesis unfolding planar_rows(1) eq
      by (rule chroma_rows [OF cw0 ch0 u0 refl len body])
  next
    case interleaved
    let ?body = "\<lambda>row buf. for_loop 0 cw
                 (\<lambda>col buf. do {
                     x \<leftarrow> load u (row * rs + col * ps);
                     buf \<leftarrow> store buf (w * h + row * cw + col) x;
                     y \<leftarrow> load v (row * rs + col * ps);
                     store buf (w * h + cw * ch + row * cw + col) y
                   }) buf"
    have eq: "copy_UV_planes w h rs ps u v buf = for_loop 0 ch ?body buf"
      using interleaved by (simp add: copy_UV_planes_def Let_def cdw cdh)
    have body: "\<exists>t'. ?body j t = Some t' \<and>
              chroma_row_done cw (w * h) (w * h + cw * ch) u v rs ps j t t'"
      if "0 \<le> j" "j < ch" "length t = length buf" for j t
      by (rule deinterleave_row [OF cw0 that(1,2) rs ps u0 refl len' [OF that(3)] fu fv])
    show ?thesis unfolding eq
      by (rule chroma_rows [OF cw0 ch0 u0 refl len body])
  qed
qed

subsection \<open>The buffer\<close>

lemma chroma_area:
  fixes w h :: int
  assumes "0 < w" "0 < h"
  shows "4 * ((w div 2) * (h div 2)) \<le> w * h"
proof -
  have "(2 * (w div 2)) * (2 * (h div 2)) \<le> w * h"
    using assms by (intro mult_mono) auto
  then show ?thesis by (simp add: algebra_simps)
qed

lemma even_size:
  fixes w h :: int
  assumes "even w" "even h"
  shows "w * h * 3 div 2 = w * h + (w div 2) * (h div 2) + (w div 2) * (h div 2)"
proof -
  obtain a b where w: "w = 2 * a" and h: "h = 2 * b" using assms by (auto elim!: evenE)
  have e: "w * h * 3 = 2 * (6 * (a * b))" by (simp add: w h)
  have "w * h * 3 div 2 = 6 * (a * b)" unfolding e by simp
  moreover have "w * h + (w div 2) * (h div 2) + (w div 2) * (h div 2) = 6 * (a * b)"
    by (simp add: w h)
  ultimately show ?thesis by simp
qed

lemma i420_buffer_spec:
  assumes wf: "well_formed img"
    and py: "plane_data (img_plane0 img) = Some yData"
    and pu: "plane_data (img_plane1 img) = Some uData"
    and pv: "plane_data (img_plane2 img) = Some vData"
  shows "\<exists>buf. i420_buffer img yData uData vData =
            Some (img_width img * img_height img * 3 div 2, buf) \<and>
     int (length buf) = img_width img * img_height img * 3 div 2 \<and>
     packed_in buf 0 (img_width img) (img_height img) yData
       (plane_rowStride (img_plane0 img)) 1 \<and>
     packed_in buf (img_width img * img_height img) (img_width img div 2)
       (img_height img div 2) uData
       (plane_rowStride (img_plane1 img)) (plane_pixelStride (img_plane1 img)) \<and>
     packed_in buf (img_width img * img_height img + (img_width img div 2) * (img_height img div 2))
       (img_width img div 2) (img_height img div 2) vData
       (plane_rowStride (img_plane1 img)) (plane_pixelStride (img_plane1 img))"
proof -
  define w h yrs rs ps where "w = img_width img" and "h = img_height img"
    and "yrs = plane_rowStride (img_plane0 img)"
    and "rs = plane_rowStride (img_plane1 img)"
    and "ps = plane_pixelStride (img_plane1 img)"
  define cw ch where "cw = w div 2" and "ch = h div 2"
  define S where "S = w * h * 3 div 2"
  note defs = w_def h_def yrs_def rs_def ps_def
  from wf py pu pv have w: "0 < w" and h: "0 < h" and bound: "w * h * 3 < 2 ^ 31"
    and fy: "plane_fits w h yrs 1 yData"
    and fu: "plane_fits cw ch rs ps uData" and fv: "plane_fits cw ch rs ps vData"
    by (simp_all add: well_formed_def defs cw_def ch_def)
  have A: "0 < w * h" using w h by simp
  have B: "0 \<le> cw * ch" using w h by (simp add: cw_def ch_def)
  have AB: "4 * (cw * ch) \<le> w * h" unfolding cw_def ch_def by (rule chroma_area [OF w h])
  have ok: "int32_ok (w * h)" "int32_ok (w * h * 3)"
    using A bound by (simp_all add: int32_ok_def)
  have size: "cdiv (w * h * 3) 2 = S" using A by (simp add: cdiv_nonneg S_def)
  have S0: "0 \<le> S" using A by (simp add: S_def)
  have SA: "w * h \<le> S" "w * h + cw * ch + cw * ch \<le> S"
    using A B AB unfolding S_def by linarith+
  define buf0 :: "byte list" where "buf0 = replicate (nat S) 0"
  have l0: "int (length buf0) = S" using S0 by (simp add: buf0_def)
  have yfit: "0 \<le> yrs" "(h - 1) * yrs + w \<le> int (length yData)"
    using fy by (simp_all add: plane_fits_def)
  have l0y: "w * h \<le> int (length buf0)" using SA l0 by simp
  from copy_Y_plane_spec [OF w h yfit l0y]
  obtain buf1 where buf1: "copy_Y_plane w h yrs yData buf0 = Some buf1"
    "length buf1 = length buf0"
    and Y1: "\<forall>row col. 0 \<le> row \<and> row < h \<and> 0 \<le> col \<and> col < w \<longrightarrow>
        buf1 ! nat (row * w + col) = yData ! nat (row * yrs + col)"
    by blast
  have ufit: "0 \<le> rs" "0 \<le> ps" "(ch - 1) * rs + (cw - 1) * ps < int (length uData)"
    "(ch - 1) * rs + (cw - 1) * ps < int (length vData)"
    using fu fv by (simp_all add: plane_fits_def)
  have l1: "w * h + cw * ch + cw * ch \<le> int (length buf1)" using SA l0 buf1(2) by simp
  from copy_UV_planes_spec [OF w h ufit(1,2) cw_def ch_def ufit(3,4) l1]
  obtain buf2 where buf2: "copy_UV_planes w h rs ps uData vData buf1 = Some buf2"
    "length buf2 = length buf1"
    and keep: "\<forall>k. 0 \<le> k \<and> k < w * h \<longrightarrow> buf2 ! nat k = buf1 ! nat k"
    and UV: "\<forall>row col. 0 \<le> row \<and> row < ch \<and> 0 \<le> col \<and> col < cw \<longrightarrow>
        buf2 ! nat (w * h + row * cw + col) = uData ! nat (row * rs + col * ps) \<and>
        buf2 ! nat (w * h + cw * ch + row * cw + col) = vData ! nat (row * rs + col * ps)"
    by blast
  have run: "i420_buffer img yData uData vData = Some (S, buf2)"
    using ok size S0 buf1(1) buf2(1)
    by (simp add: i420_buffer_def Let_def defs [symmetric] buf0_def [symmetric])
  have len: "int (length buf2) = S" using buf2(2) buf1(2) l0 by simp
  have PY: "packed_in buf2 0 w h yData yrs 1"
    unfolding packed_in_def
  proof (intro ballI)
    fix row col assume r: "row \<in> {0..<h}" and c: "col \<in> {0..<w}"
    then have i: "0 \<le> row * w + col" "row * w + col < w * h"
      using idx_lt [of col w row h] w by (simp_all add: mult.commute)
    from keep i have "buf2 ! nat (row * w + col) = buf1 ! nat (row * w + col)" by blast
    also from Y1 r c have "\<dots> = yData ! nat (row * yrs + col)" by simp
    finally show "buf2 ! nat (0 + row * w + col) = yData ! nat (row * yrs + col * 1)" by simp
  qed
  have PU: "packed_in buf2 (w * h) cw ch uData rs ps"
    unfolding packed_in_def using UV by simp
  have PV: "packed_in buf2 (w * h + cw * ch) cw ch vData rs ps"
    unfolding packed_in_def using UV by simp
  from run len PY PU PV show ?thesis
    unfolding S_def cw_def ch_def defs by blast
qed

subsection \<open>Luma\<close>

text \<open>
  C4. For a well-formed image the handler's buffer holds, in its first width * height
  bytes, the luma plane with the stride padding stripped: for every row and column, byte
  \<open>row * width + col\<close> is the source byte at \<open>row * rowStride + col\<close> (which is the bulk
  copy when the row stride equals the width). The example is the 4 by 4 plane with row
  stride 8 filled with the row index: sixteen bytes, byte \<open>row * 4 + col\<close> equal to \<open>row\<close>.
\<close>

theorem luma_plane_packed:
  assumes "well_formed img"
    and "plane_data (img_plane0 img) = Some yData"
    and "plane_data (img_plane1 img) = Some uData"
    and "plane_data (img_plane2 img) = Some vData"
  shows "\<exists>buf. i420_buffer img yData uData vData =
            Some (img_width img * img_height img * 3 div 2, buf) \<and>
     img_width img * img_height img \<le> int (length buf) \<and>
     (\<forall>row \<in> {0..<img_height img}. \<forall>col \<in> {0..<img_width img}.
        buf ! nat (row * img_width img + col) =
        yData ! nat (row * plane_rowStride (img_plane0 img) + col))"
proof -
  from i420_buffer_spec [OF assms] obtain buf where
    b: "i420_buffer img yData uData vData = Some (img_width img * img_height img * 3 div 2, buf)"
    "int (length buf) = img_width img * img_height img * 3 div 2"
    "packed_in buf 0 (img_width img) (img_height img) yData (plane_rowStride (img_plane0 img)) 1"
    by blast
  have "0 < img_width img * img_height img" using assms(1) by (simp add: well_formed_def)
  then have "img_width img * img_height img \<le> int (length buf)" unfolding b(2) by linarith
  with b(1,3) show ?thesis by (simp add: packed_in_def)
qed

theorem luma_plane_packed_witness:
  "well_formed image_4x4 \<and>
   i420_buffer image_4x4 luma_4x4 [10, 10, 10, 10] [20, 20, 20, 20] = Some (24, buffer_4x4) \<and>
   take 16 buffer_4x4 = [0, 0, 0, 0, 1, 1, 1, 1, 2, 2, 2, 2, 3, 3, 3, 3] \<and>
   packed_in buffer_4x4 0 4 4 luma_4x4 8 1 \<and>
   map (\<lambda>(row, col). buffer_4x4 ! (row * 4 + col)) (List.product [0..<4] [0..<4]) =
   map (\<lambda>(row, col). of_nat row) (List.product [0..<4] [0..<4])"
proof -
  have wf: "well_formed image_4x4"
    by (simp add: well_formed_def image_4x4_def plane_fits_def luma_4x4_def)
  have run: "i420_buffer image_4x4 luma_4x4 [10, 10, 10, 10] [20, 20, 20, 20] =
      Some (24, buffer_4x4)" by code_simp
  from luma_plane_packed [OF wf, of luma_4x4 "[10, 10, 10, 10]" "[20, 20, 20, 20]"]
  have p: "packed_in buffer_4x4 0 4 4 luma_4x4 8 1"
    by (simp add: image_4x4_def run [unfolded image_4x4_def] packed_in_def)
  have t: "take 16 buffer_4x4 = [0, 0, 0, 0, 1, 1, 1, 1, 2, 2, 2, 2, 3, 3, 3, 3]"
    by (simp add: buffer_4x4_def)
  have m: "map (\<lambda>(row, col). buffer_4x4 ! (row * 4 + col)) (List.product [0..<4] [0..<4]) =
      map (\<lambda>(row, col). of_nat row) (List.product [0..<4] [0..<4])"
    by code_simp
  from wf run t p m show ?thesis by (intro conjI)
qed

subsection \<open>Chroma\<close>

text \<open>
  C3. For a well-formed image whose planes 1 and 2 report the same strides, the chroma
  dimensions are width div 2 and height div 2 (the truncating division of C++), and for
  every chroma row and column the byte of the U plane at \<open>row * rowStride + col * pixelStride\<close>,
  with the strides of plane 1, is at \<open>row * chromaWidth + col\<close> of the packed U destination,
  and the byte of the V plane at \<open>row * rowStride + col * pixelStride\<close>, with the strides of
  plane 2, is at \<open>row * chromaWidth + col\<close> of the packed V destination. With pixel stride 1
  this is the planar copy (bulk when the row stride is the chroma width, row by row
  otherwise).
\<close>

theorem chroma_planes_packed:
  assumes "well_formed img" and "chroma_strides_agree img"
    and "plane_data (img_plane0 img) = Some yData"
    and "plane_data (img_plane1 img) = Some uData"
    and "plane_data (img_plane2 img) = Some vData"
  shows "\<exists>buf. i420_buffer img yData uData vData =
            Some (img_width img * img_height img * 3 div 2, buf) \<and>
     cdiv (img_width img) 2 = img_width img div 2 \<and>
     cdiv (img_height img) 2 = img_height img div 2 \<and>
     packed_in buf (img_width img * img_height img) (img_width img div 2)
       (img_height img div 2) uData
       (plane_rowStride (img_plane1 img)) (plane_pixelStride (img_plane1 img)) \<and>
     packed_in buf (img_width img * img_height img + (img_width img div 2) * (img_height img div 2))
       (img_width img div 2) (img_height img div 2) vData
       (plane_rowStride (img_plane2 img)) (plane_pixelStride (img_plane2 img))"
proof -
  have "0 < img_width img" "0 < img_height img" using assms(1) by (simp_all add: well_formed_def)
  then have "cdiv (img_width img) 2 = img_width img div 2"
    "cdiv (img_height img) 2 = img_height img div 2" by (simp_all add: cdiv_nonneg)
  moreover have "plane_rowStride (img_plane2 img) = plane_rowStride (img_plane1 img)"
    "plane_pixelStride (img_plane2 img) = plane_pixelStride (img_plane1 img)"
    using assms(2) by (simp_all add: chroma_strides_agree_def)
  ultimately show ?thesis using i420_buffer_spec [OF assms(1,3,4,5)] by auto
qed

theorem chroma_planes_packed_witness:
  "well_formed image_interleaved \<and> chroma_strides_agree image_interleaved \<and>
   i420_buffer image_interleaved luma_tight [100, 200, 101, 201, 102, 202, 103]
     [200, 101, 201, 102, 202, 103, 203] = Some (24, buffer_interleaved) \<and>
   packed_in buffer_interleaved 16 2 2 [100, 200, 101, 201, 102, 202, 103] 4 2 \<and>
   packed_in buffer_interleaved 20 2 2 [200, 101, 201, 102, 202, 103, 203] 4 2 \<and>
   drop 16 buffer_interleaved = [100, 101, 102, 103, 200, 201, 202, 203]"
proof -
  have wf: "well_formed image_interleaved"
    by (simp add: well_formed_def image_interleaved_def plane_fits_def luma_tight_def)
  have ag: "chroma_strides_agree image_interleaved"
    by (simp add: chroma_strides_agree_def image_interleaved_def)
  have run: "i420_buffer image_interleaved luma_tight [100, 200, 101, 201, 102, 202, 103]
     [200, 101, 201, 102, 202, 103, 203] = Some (24, buffer_interleaved)" by code_simp
  have d: "drop 16 buffer_interleaved = [100, 101, 102, 103, 200, 201, 202, 203]"
    by (simp add: buffer_interleaved_def luma_tight_def)
  from chroma_planes_packed [OF wf ag, of luma_tight "[100, 200, 101, 201, 102, 202, 103]"
      "[200, 101, 201, 102, 202, 103, 203]"]
  show ?thesis using wf ag d
    by (simp add: image_interleaved_def run [unfolded image_interleaved_def])
qed

subsection \<open>The frame handed to the consumer\<close>

text \<open>
  C5. For a well-formed image of even width and height and a registered callback, the
  handler allocates a buffer of width * height * 3 div 2 bytes, calls the callback once with
  that buffer, that size, the width, the height and the timestamp of the image, and releases
  the image. The size is width * height plus twice (width div 2) * (height div 2): the buffer
  is the packed luma plane, then the packed U plane, then the packed V plane.
\<close>

theorem frame_delivered:
  assumes "well_formed img" and "even (img_width img)" and "even (img_height img)"
    and "plane_data (img_plane0 img) = Some yData"
    and "plane_data (img_plane1 img) = Some uData"
    and "plane_data (img_plane2 img) = Some vData"
    and "frameCallback self = Some cb"
  shows "\<exists>buf. onImageAvailable self AMEDIA_OK (Some img) =
           Some (self\<lparr>calls := calls self @
             [Vector_alloc (img_width img * img_height img * 3 div 2),
              FrameCallback cb buf (img_width img * img_height img * 3 div 2)
                (img_width img) (img_height img) (img_timestamp img),
              AImage_delete img]\<rparr>) \<and>
     int (length buf) = img_width img * img_height img * 3 div 2 \<and>
     img_width img * img_height img * 3 div 2 =
       img_width img * img_height img + (img_width img div 2) * (img_height img div 2) +
       (img_width img div 2) * (img_height img div 2) \<and>
     packed_in buf 0 (img_width img) (img_height img) yData
       (plane_rowStride (img_plane0 img)) 1 \<and>
     packed_in buf (img_width img * img_height img) (img_width img div 2)
       (img_height img div 2) uData
       (plane_rowStride (img_plane1 img)) (plane_pixelStride (img_plane1 img)) \<and>
     packed_in buf (img_width img * img_height img + (img_width img div 2) * (img_height img div 2))
       (img_width img div 2) (img_height img div 2) vData
       (plane_rowStride (img_plane1 img)) (plane_pixelStride (img_plane1 img))"
proof -
  from i420_buffer_spec [OF assms(1,4,5,6)] obtain buf where
    b: "i420_buffer img yData uData vData = Some (img_width img * img_height img * 3 div 2, buf)"
    and rest: "int (length buf) = img_width img * img_height img * 3 div 2"
     "packed_in buf 0 (img_width img) (img_height img) yData
       (plane_rowStride (img_plane0 img)) 1"
     "packed_in buf (img_width img * img_height img) (img_width img div 2)
       (img_height img div 2) uData
       (plane_rowStride (img_plane1 img)) (plane_pixelStride (img_plane1 img))"
     "packed_in buf (img_width img * img_height img + (img_width img div 2) * (img_height img div 2))
       (img_width img div 2) (img_height img div 2) vData
       (plane_rowStride (img_plane1 img)) (plane_pixelStride (img_plane1 img))"
    by blast
  have run: "onImageAvailable self AMEDIA_OK (Some img) =
           Some (self\<lparr>calls := calls self @
             [Vector_alloc (img_width img * img_height img * 3 div 2),
              FrameCallback cb buf (img_width img * img_height img * 3 div 2)
                (img_width img) (img_height img) (img_timestamp img),
              AImage_delete img]\<rparr>)"
    using assms(4-7) b by (simp add: onImageAvailable_def call_def)
  show ?thesis
    by (intro exI [of _ buf] conjI run rest even_size [OF assms(2,3)])
qed

theorem frame_delivered_witness:
  "well_formed image_4x4 \<and> even (img_width image_4x4) \<and> even (img_height image_4x4) \<and>
   frameCallback capturing_bridge = Some 9 \<and>
   onImageAvailable capturing_bridge AMEDIA_OK (Some image_4x4) =
     Some (capturing_bridge\<lparr>calls := calls capturing_bridge @
       [Vector_alloc 24, FrameCallback 9 buffer_4x4 24 4 4 1000000, AImage_delete image_4x4]\<rparr>) \<and>
   length buffer_4x4 = 24"
proof -
  have wf: "well_formed image_4x4"
    by (simp add: well_formed_def image_4x4_def plane_fits_def luma_4x4_def)
  have run: "i420_buffer image_4x4 luma_4x4 [10, 10, 10, 10] [20, 20, 20, 20] =
      Some (24, buffer_4x4)" by code_simp
  have cb: "frameCallback capturing_bridge = Some 9" by (simp add: capturing_bridge_def)
  have p: "plane_data (img_plane0 image_4x4) = Some luma_4x4"
    "plane_data (img_plane1 image_4x4) = Some [10, 10, 10, 10]"
    "plane_data (img_plane2 image_4x4) = Some [20, 20, 20, 20]"
    "img_width image_4x4 = 4" "img_height image_4x4 = 4" "img_timestamp image_4x4 = 1000000"
    by (simp_all add: image_4x4_def)
  have e: "even (img_width image_4x4)" "even (img_height image_4x4)" by (simp_all add: p)
  have o: "onImageAvailable capturing_bridge AMEDIA_OK (Some image_4x4) =
     Some (capturing_bridge\<lparr>calls := calls capturing_bridge @
       [Vector_alloc 24, FrameCallback 9 buffer_4x4 24 4 4 1000000, AImage_delete image_4x4]\<rparr>)"
    by (simp add: onImageAvailable_def cb p run call_def)
  from frame_delivered [OF wf e p(1-3) cb]
  show ?thesis using wf e cb o by (simp add: buffer_4x4_def)
qed

subsection \<open>Release of the image\<close>

text \<open>On every return of the handler the image it acquired has been released exactly once,
  and on a well-formed image with a registered callback, when nothing throws, the handler
  does return.\<close>

lemma i420_buffer_SomeD:
  assumes "i420_buffer img yData uData vData = Some r"
  shows "int32_ok (img_width img * img_height img)"
    and "int32_ok (img_width img * img_height img * 3)"
    and "\<not> cdiv (img_width img * img_height img * 3) 2 < 0"
  using assms by (auto simp: i420_buffer_def Let_def split: if_splits)

lemma onImageAvailable_exit_Returned:
  assumes "\<not> vector_throws faults" "\<not> callback_throws faults"
  shows "onImageAvailable_exit faults self status acquired = Returned b \<longleftrightarrow>
         onImageAvailable self status acquired = Some b"
proof (cases acquired)
  case None
  then show ?thesis by (simp add: onImageAvailable_exit_def onImageAvailable_def)
next
  case (Some img)
  show ?thesis
  proof (cases "frameCallback self")
    case None
    with Some show ?thesis by (simp add: onImageAvailable_exit_def onImageAvailable_def)
  next
    case cb: (Some cb)
    show ?thesis
    proof (cases "\<exists>y u v. plane_data (img_plane0 img) = Some y \<and>
        plane_data (img_plane1 img) = Some u \<and> plane_data (img_plane2 img) = Some v")
      case True
      then obtain y u v where p: "plane_data (img_plane0 img) = Some y"
        "plane_data (img_plane1 img) = Some u" "plane_data (img_plane2 img) = Some v" by blast
      show ?thesis
      proof (cases "i420_buffer img y u v")
        case None
        with Some cb p show ?thesis
          by (simp add: onImageAvailable_exit_def onImageAvailable_def)
      next
        case r: (Some r)
        obtain n buf where nb: "r = (n, buf)" by (cases r)
        from i420_buffer_SomeD [OF r] Some cb p r nb assms show ?thesis
          by (simp add: onImageAvailable_exit_def onImageAvailable_def Let_def)
      qed
    next
      case False
      with Some cb show ?thesis
        by (cases "plane_data (img_plane0 img)"; cases "plane_data (img_plane1 img)";
            cases "plane_data (img_plane2 img)")
           (simp_all add: onImageAvailable_exit_def onImageAvailable_def)
    qed
  qed
qed

lemma released_on_return:
  "(status \<noteq> AMEDIA_OK \<or> acquired = None \<longrightarrow>
      onImageAvailable_exit faults self status acquired = Returned self) \<and>
   (frameCallback self = None \<longrightarrow>
      onImageAvailable_exit faults self AMEDIA_OK (Some img) =
        Returned (call (AImage_delete img) self)) \<and>
   (plane_data (img_plane0 img) = None \<or> plane_data (img_plane1 img) = None \<or>
    plane_data (img_plane2 img) = None \<longrightarrow>
      onImageAvailable_exit faults self AMEDIA_OK (Some img) =
        Returned (call (AImage_delete img) self)) \<and>
   (\<forall>self'. onImageAvailable_exit faults self AMEDIA_OK (Some img) = Returned self' \<longrightarrow>
      filter is_image_delete (drop (length (calls self)) (calls self')) = [AImage_delete img] \<and>
      self'\<lparr>calls := calls self\<rparr> = self)"
proof (intro conjI allI impI)
  assume "status \<noteq> AMEDIA_OK \<or> acquired = None"
  then show "onImageAvailable_exit faults self status acquired = Returned self"
    by (cases acquired) (auto simp: onImageAvailable_exit_def)
next
  assume "frameCallback self = None"
  then show "onImageAvailable_exit faults self AMEDIA_OK (Some img) =
      Returned (call (AImage_delete img) self)"
    by (simp add: onImageAvailable_exit_def)
next
  assume "plane_data (img_plane0 img) = None \<or> plane_data (img_plane1 img) = None \<or>
    plane_data (img_plane2 img) = None"
  then show "onImageAvailable_exit faults self AMEDIA_OK (Some img) =
      Returned (call (AImage_delete img) self)"
    by (cases "frameCallback self"; cases "plane_data (img_plane0 img)";
        cases "plane_data (img_plane1 img)"; cases "plane_data (img_plane2 img)")
       (simp_all add: onImageAvailable_exit_def)
next
  fix self' assume r: "onImageAvailable_exit faults self AMEDIA_OK (Some img) = Returned self'"
  have "\<exists>cs. self' = self\<lparr>calls := calls self @ cs @ [AImage_delete img]\<rparr> \<and>
     filter is_image_delete cs = []"
  proof (cases "frameCallback self")
    case None
    with r show ?thesis
      by (intro exI [of _ "[]"]) (auto simp: onImageAvailable_exit_def call_def)
  next
    case (Some cb)
    show ?thesis
    proof (cases "\<exists>y u v. plane_data (img_plane0 img) = Some y \<and>
        plane_data (img_plane1 img) = Some u \<and> plane_data (img_plane2 img) = Some v")
      case True
      then obtain y u v where p: "plane_data (img_plane0 img) = Some y"
        "plane_data (img_plane1 img) = Some u" "plane_data (img_plane2 img) = Some v" by blast
      from r Some p obtain n buf where "i420_buffer img y u v = Some (n, buf)"
        by (cases "i420_buffer img y u v")
           (auto simp: onImageAvailable_exit_def split: if_splits)
      with r Some p have "self' = self\<lparr>calls := calls self @
          [Vector_alloc n, FrameCallback cb buf n (img_width img) (img_height img)
             (img_timestamp img)] @ [AImage_delete img]\<rparr>"
        by (simp add: onImageAvailable_exit_def call_def Let_def split: if_splits)
      then show ?thesis
        by (intro exI [of _ "[Vector_alloc n, FrameCallback cb buf n (img_width img)
              (img_height img) (img_timestamp img)]"]) simp
    next
      case False
      then have "onImageAvailable_exit faults self AMEDIA_OK (Some img) =
          Returned (call (AImage_delete img) self)"
        using Some
        by (cases "plane_data (img_plane0 img)"; cases "plane_data (img_plane1 img)";
            cases "plane_data (img_plane2 img)") (simp_all add: onImageAvailable_exit_def)
      with r show ?thesis by (intro exI [of _ "[]"]) (auto simp: call_def)
    qed
  qed
  then obtain cs where cs: "self' = self\<lparr>calls := calls self @ cs @ [AImage_delete img]\<rparr>"
    "filter is_image_delete cs = []" by blast
  show "filter is_image_delete (drop (length (calls self)) (calls self')) = [AImage_delete img]"
    using cs by simp
  show "self'\<lparr>calls := calls self\<rparr> = self" using cs(1) by simp
qed

lemma frame_path_returns:
  assumes "well_formed img"
    and "plane_data (img_plane0 img) = Some yData"
    and "plane_data (img_plane1 img) = Some uData"
    and "plane_data (img_plane2 img) = Some vData"
    and "frameCallback self = Some cb"
    and "\<not> vector_throws faults" and "\<not> callback_throws faults"
  shows "\<exists>buf. onImageAvailable_exit faults self AMEDIA_OK (Some img) =
           Returned (self\<lparr>calls := calls self @
             [Vector_alloc (img_width img * img_height img * 3 div 2),
              FrameCallback cb buf (img_width img * img_height img * 3 div 2)
                (img_width img) (img_height img) (img_timestamp img),
              AImage_delete img]\<rparr>)"
proof -
  from i420_buffer_spec [OF assms(1-4)] obtain buf where
    b: "i420_buffer img yData uData vData = Some (img_width img * img_height img * 3 div 2, buf)"
    by blast
  from i420_buffer_SomeD [OF b] b assms(2-7) show ?thesis
    by (intro exI [of _ buf]) (simp add: onImageAvailable_exit_def call_def Let_def)
qed



end
